theory Spec2Isabelle
  imports Complex_Main
begin

section \<open>Data model\<close>

text \<open>
  Locations are indices into the travel-time and shortest-path tables. Times are Python
  floats in the source; they are modelled as exact reals, so every statement below is about
  the arithmetic the code intends, not about rounding.
\<close>

type_synonym location = nat

datatype py_error = IndexError | AssertionError | UnboundLocalError | ValueError | LogicError

text \<open>
  Modelled from the spec: the classes \<open>Request\<close>, \<open>RequestInfo\<close>, \<open>PathNode\<close>, \<open>Path\<close>
  and \<open>LearningAgent\<close> (files \<open>Request.py\<close>, \<open>Path.py\<close>, \<open>LearningAgent.py\<close>) are imported by
  \<open>Environment.py\<close> but their sources are missing. The fields are those the spec's data
  model lists and \<open>Environment.py\<close> reads (\<open>request.pickup\<close>, \<open>path.requests\<close>,
  \<open>path.request_order\<close>, \<open>node.expected_visit_time\<close>, \<open>position.next_location\<close>, ...).
  A request carries its two deadlines, fixed when it is created.
\<close>

record Request =
  pickup :: location
  dropoff :: location
  creation_time :: real
  travel_time :: real
  pickup_deadline :: real
  dropoff_deadline :: real

record RequestInfo =
  request :: Request
  assigned :: bool

record PathNode =
  is_dropoff :: bool
  request_index :: nat
  expected_visit_time :: real
  current_capacity :: int

record Path =
  requests :: "RequestInfo list"
  request_order :: "PathNode list"
  current_capacity :: int
  total_delay :: real

record Position =
  next_location :: location
  time_to_next_location :: real

record LearningAgent =
  agent_id :: nat
  position :: Position
  path :: Path

text \<open>
  \<open>NYEnvironment\<close>: the attributes set by \<open>__init__\<close> and \<open>initialise_environment\<close>. The two
  tables are read from CSV files that are not part of the sources; they are total lookup
  functions here (the travel oracle of the spec).
\<close>

record NYEnvironment =
  current_time :: real
  travel_time :: "location \<Rightarrow> location \<Rightarrow> real"
  shortest_path :: "location \<Rightarrow> location \<Rightarrow> location"
  ignored_zones :: "nat list"
  MAX_CAPACITY :: int
  recent_request_history :: "Request list"

definition REQUEST_HISTORY_SIZE :: nat where
  "REQUEST_HISTORY_SIZE = 500"

definition EPOCH_LENGTH :: real where
  "EPOCH_LENGTH = 60"

definition get_travel_time :: "NYEnvironment \<Rightarrow> location \<Rightarrow> location \<Rightarrow> real" where
  "get_travel_time envt source destination = NYEnvironment.travel_time envt source destination"

definition get_next_location :: "NYEnvironment \<Rightarrow> location \<Rightarrow> location \<Rightarrow> location" where
  "get_next_location envt source destination = shortest_path envt source destination"

definition get_epoch_length :: "NYEnvironment \<Rightarrow> real" where
  "get_epoch_length envt = EPOCH_LENGTH"

section \<open>Path operations\<close>

text \<open>
  Modelled from the spec: the constructor \<open>PathNode(is_dropoff, request_index)\<close> (missing
  \<open>Path.py\<close>). The spec gives the two derived fields no initial value (they are
  recomputed by the validator); they start at 0 here.
\<close>

definition new_node :: "bool \<Rightarrow> nat \<Rightarrow> PathNode" where
  "new_node d i = \<lparr>is_dropoff = d, request_index = i, expected_visit_time = 0, current_capacity = 0\<rparr>"

text \<open>
  Modelled from the spec: \<open>Path.get_info\<close> (missing \<open>Path.py\<close>), section 4.1: the
  location and the deadline of a node, looked up through the RequestInfo the node's index
  names; the pickup location and pickup deadline for a pickup node, the destination and the
  request's deadline for a dropoff node. An index outside the list raises, as Python's
  list indexing does.
\<close>

definition node_info :: "RequestInfo list \<Rightarrow> PathNode \<Rightarrow> location \<times> real" where
  "node_info rs node =
     (let r = request (rs ! request_index node)
      in if is_dropoff node then (dropoff r, dropoff_deadline r)
         else (pickup r, pickup_deadline r))"

definition get_info :: "Path \<Rightarrow> PathNode \<Rightarrow> py_error + (location \<times> real)" where
  "get_info p node =
     (if request_index node < length (requests p) then Inr (node_info (requests p) node)
      else Inl IndexError)"

text \<open>
  Modelled from the spec: \<open>Path.is_empty\<close>, \<open>Path.get_next_location\<close> and
  \<open>Path.visit_next_location\<close> (missing \<open>Path.py\<close>), section 4.1: the path is empty when
  its visit order has no node; the next location is that of the head node, or none;
  visiting pops the head node and fails with a logic error on an empty path.
\<close>

definition Path_is_empty :: "Path \<Rightarrow> bool" where
  "Path_is_empty p = (request_order p = [])"

definition Path_get_next_location :: "Path \<Rightarrow> py_error + location option" where
  "Path_get_next_location p =
     (case request_order p of
        [] \<Rightarrow> Inr None
      | node # _ \<Rightarrow> (case get_info p node of Inl e \<Rightarrow> Inl e | Inr (l, _) \<Rightarrow> Inr (Some l)))"

definition visit_next_location :: "Path \<Rightarrow> py_error + Path" where
  "visit_next_location p =
     (case request_order p of
        [] \<Rightarrow> Inl LogicError
      | _ # rest \<Rightarrow> Inr (p\<lparr>request_order := rest\<rparr>))"

text \<open>
  \<open>Path.is_complete\<close> is missing with \<open>Path.py\<close>. The validator takes it as a parameter,
  so that everything proved about the validator holds for whatever predicate the missing
  file implements. Where a concrete predicate is needed, \<open>visits_all_requests\<close> is used: it
  follows the comment at the call site in \<open>has_valid_path\<close> (\<open>Make sure that it visits all
  the requests that it has accepted\<close>): every request the path holds still has its dropoff
  in the visit order.
\<close>

definition visits_all_requests :: "Path \<Rightarrow> bool" where
  "visits_all_requests p =
     list_all (\<lambda>i. list_ex (\<lambda>node. is_dropoff node \<and> request_index node = i) (request_order p))
       [0 ..< length (requests p)]"

section \<open>The feasibility validator\<close>

text \<open>
  \<open>invalid_path_trace\<close> prints the issue and returns False. The issue that ends a call
  (\<open>return invalid_path_trace(...)\<close>) is the verdict; the issues whose result is dropped
  (the two \<open>(Ignored)\<close> traces) are collected in the order they are printed.
\<close>

datatype issue =
    Incomplete_path
  | Does_not_meet_deadline nat
  | Visit_time_incorrect nat
  | Exceeds_MAX_CAPACITY nat
  | Capacity_incorrect nat

datatype verdict = Valid | Invalid issue

text \<open>
  The body of \<open>for node_idx, node in enumerate(agent.path.request_order)\<close>. The arguments
  after the nodes are the loop's variables \<open>current_time\<close>, \<open>current_location\<close>,
  \<open>current_capacity\<close> and \<open>available_delay\<close>. The nodes are mutated in place in the
  source: the result holds the nodes as they are when the call returns, so a failure at a
  node returns the nodes before it as they were overwritten. The nodes of a path are taken
  to be distinct objects.
\<close>

fun check_nodes ::
  "NYEnvironment \<Rightarrow> Path \<Rightarrow> nat \<Rightarrow> PathNode list \<Rightarrow> real \<Rightarrow> location \<Rightarrow> int \<Rightarrow> real
     \<Rightarrow> py_error + (verdict \<times> PathNode list \<times> real \<times> issue list)" where
  "check_nodes envt p node_idx [] t loc cap available_delay = Inr (Valid, [], available_delay, [])"
| "check_nodes envt p node_idx (node # rest) t loc cap available_delay =
     (case get_info p node of
        Inl e \<Rightarrow> Inl e
      | Inr (next_loc, deadline) \<Rightarrow>
          let travel = get_travel_time envt loc next_loc in
          if t + travel > deadline
          then Inr (Invalid (Does_not_meet_deadline node_idx), node # rest, available_delay, [])
          else
            let t' = t + travel;
                stale_time = (expected_visit_time node \<noteq> t');
                node1 = (if stale_time then node\<lparr>expected_visit_time := t'\<rparr> else node);
                w1 = (if stale_time then [Visit_time_incorrect node_idx] else []);
                delay' = (if is_dropoff node1
                          then available_delay + (deadline - expected_visit_time node1)
                          else available_delay)
            in
            if cap > MAX_CAPACITY envt
            then Inr (Invalid (Exceeds_MAX_CAPACITY node_idx), node1 # rest, delay', w1)
            else
              let next_capacity = (if is_dropoff node1 then cap - 1 else cap + 1);
                  stale_cap = (PathNode.current_capacity node1 \<noteq> next_capacity);
                  node2 = (if stale_cap then node1\<lparr>PathNode.current_capacity := next_capacity\<rparr>
                           else node1);
                  w2 = (if stale_cap then [Capacity_incorrect node_idx] else [])
              in
              (case check_nodes envt p (Suc node_idx) rest t' next_loc
                      (PathNode.current_capacity node2) delay' of
                 Inl e \<Rightarrow> Inl e
               | Inr (v, rest', d, w) \<Rightarrow> Inr (v, node2 # rest', d, w1 @ w2 @ w)))"

text \<open>
  \<open>NYEnvironment.has_valid_path\<close>. The result is the verdict, the agent as the call leaves
  it, and the ignored traces. \<open>total_delay\<close> is assigned on the accepting path only.
\<close>

definition has_valid_path ::
  "(Path \<Rightarrow> bool) \<Rightarrow> NYEnvironment \<Rightarrow> LearningAgent
     \<Rightarrow> py_error + (verdict \<times> LearningAgent \<times> issue list)" where
  "has_valid_path is_complete envt agent =
     (if \<not> is_complete (path agent) then Inr (Invalid Incomplete_path, agent, [])
      else
        case check_nodes envt (path agent) 0 (request_order (path agent))
               (current_time envt + time_to_next_location (position agent))
               (next_location (position agent))
               (Path.current_capacity (path agent)) 0 of
          Inl e \<Rightarrow> Inl e
        | Inr (v, nodes', available_delay, w) \<Rightarrow>
            Inr (v,
                 agent\<lparr>path := (path agent)\<lparr>request_order := nodes',
                                            total_delay := (if v = Valid then available_delay
                                                            else total_delay (path agent))\<rparr>\<rparr>,
                 w))"

section \<open>The motion simulator\<close>

text \<open>
  One pass through the body of \<open>while(time_remaining >= 0)\<close> in \<open>_move_agent\<close>: the pass
  raises, leaves the loop through \<open>break\<close>, or goes back to the loop's test.
  \<open>agent.position.next_location == agent.path.get_next_location()\<close> is false on an empty
  path, whose next location is none. A path that is not empty has a next location, so the
  branch for none after the test \<open>not agent.path.is_empty()\<close> is never taken.
\<close>

datatype move_step = Raise py_error | Break LearningAgent real | Continue LearningAgent real

definition move_body :: "NYEnvironment \<Rightarrow> LearningAgent \<Rightarrow> real \<Rightarrow> move_step" where
  "move_body envt agent budget =
     (let time_remaining = budget - time_to_next_location (position agent) in
      if time_remaining \<ge> 0 then
        (case Path_get_next_location (path agent) of
           Inl e \<Rightarrow> Raise e
         | Inr head \<Rightarrow>
             (case (if Some (next_location (position agent)) = head
                    then visit_next_location (path agent) else Inr (path agent)) of
                Inl e \<Rightarrow> Raise e
              | Inr p \<Rightarrow>
                  if \<not> Path_is_empty p then
                    (case Path_get_next_location p of
                       Inl e \<Rightarrow> Raise e
                     | Inr None \<Rightarrow> Raise LogicError
                     | Inr (Some target) \<Rightarrow>
                         let next_loc = get_next_location envt (next_location (position agent)) target
                         in Continue
                              (agent\<lparr>position :=
                                        \<lparr>next_location = next_loc,
                                         time_to_next_location =
                                           get_travel_time envt (next_location (position agent)) next_loc\<rparr>,
                                     path := p\<rparr>)
                              time_remaining)
                  else Break (agent\<lparr>path := p\<rparr>) time_remaining))
      else
        Continue
          (agent\<lparr>position := (position agent)
                     \<lparr>time_to_next_location :=
                        time_to_next_location (position agent)
                        - (time_remaining + time_to_next_location (position agent))\<rparr>\<rparr>)
          time_remaining)"

text \<open>
  \<open>Environment._move_agent\<close>. The loop need not end (travel times of zero on a hop that
  never reaches the target), so the result is an option: \<open>None\<close> is a call that never
  returns, \<open>Some (Inl e)\<close> one that raises, \<open>Some (Inr (agent, time_remaining))\<close> one that
  returns \<open>time_remaining\<close> and leaves the agent as given.
\<close>

partial_function (option) move_agent ::
  "NYEnvironment \<Rightarrow> LearningAgent \<Rightarrow> real \<Rightarrow> (py_error + LearningAgent \<times> real) option" where
  "move_agent envt agent time_remaining =
     (if time_remaining \<ge> 0 then
        (case move_body envt agent time_remaining of
           Raise e \<Rightarrow> Some (Inl e)
         | Break agent' time_remaining' \<Rightarrow> Some (Inr (agent', time_remaining'))
         | Continue agent' time_remaining' \<Rightarrow> move_agent envt agent' time_remaining')
      else Some (Inr (agent, time_remaining)))"

text \<open>
  \<open>recent_request_history\<close> is a \<open>deque(maxlen=REQUEST_HISTORY_SIZE)\<close>: \<open>extend\<close> appends the
  items one by one, and an append to a full deque drops the item at the left end.
\<close>

definition deque_append :: "nat \<Rightarrow> 'a list \<Rightarrow> 'a \<Rightarrow> 'a list" where
  "deque_append maxlen d x = (let d' = d @ [x] in if length d' > maxlen then tl d' else d')"

definition deque_extend :: "nat \<Rightarrow> 'a list \<Rightarrow> 'a list \<Rightarrow> 'a list" where
  "deque_extend maxlen d xs = foldl (deque_append maxlen) d xs"

definition update_recent_requests :: "NYEnvironment \<Rightarrow> Request list \<Rightarrow> NYEnvironment" where
  "update_recent_requests envt recent_requests =
     envt\<lparr>recent_request_history :=
            deque_extend REQUEST_HISTORY_SIZE (recent_request_history envt) recent_requests\<rparr>"

text \<open>
  \<open>random.choice\<close>: the random source is a parameter, the \<open>i\<close>-th draw being the number
  \<open>rnd i\<close>, reduced to an index into the sequence; an empty sequence raises \<open>IndexError\<close>.
\<close>

definition choice :: "'a list \<Rightarrow> nat \<Rightarrow> py_error + 'a" where
  "choice xs r = (if xs = [] then Inl IndexError else Inr (xs ! (r mod length xs)))"

fun sample_targets :: "Request list \<Rightarrow> nat list \<Rightarrow> py_error + Request list" where
  "sample_targets history [] = Inr []"
| "sample_targets history (r # rs) =
     (case choice history r of
        Inl e \<Rightarrow> Inl e
      | Inr target \<Rightarrow>
          (case sample_targets history rs of
             Inl e \<Rightarrow> Inl e
           | Inr targets \<Rightarrow> Inr (target # targets)))"

text \<open>
  The program \<open>_get_rebalance_targets\<close> hands to the solver: one binary variable per pair
  of an agent and a target, each agent's row summing to 1, each target's column summing
  to 1, and the total travel time to minimise.
\<close>

record assignment_model =
  num_agents :: nat
  num_targets :: nat
  cost :: "nat \<Rightarrow> nat \<Rightarrow> real"

type_synonym assignment = "nat \<Rightarrow> nat \<Rightarrow> int"

definition feasible :: "assignment_model \<Rightarrow> assignment \<Rightarrow> bool" where
  "feasible m x =
     ((\<forall>a<num_agents m. \<forall>t<num_targets m. x a t = 0 \<or> x a t = 1) \<and>
      (\<forall>a<num_agents m. (\<Sum>t<num_targets m. x a t) = 1) \<and>
      (\<forall>t<num_targets m. (\<Sum>a<num_agents m. x a t) = 1))"

definition objective :: "assignment_model \<Rightarrow> assignment \<Rightarrow> real" where
  "objective m x = (\<Sum>t<num_targets m. \<Sum>a<num_agents m. real_of_int (x a t) * cost m a t)"

text \<open>
  \<open>model.solve()\<close> is the external solver (docplex). It is a parameter of the model; what
  is assumed of it, where a statement needs it, is \<open>solves\<close>: it returns nothing only for a
  program without solution, and otherwise a solution of least objective value.
\<close>

definition solves :: "assignment_model \<Rightarrow> assignment option \<Rightarrow> bool" where
  "solves m s =
     (case s of
        None \<Rightarrow> \<not> (\<exists>x. feasible m x)
      | Some x \<Rightarrow> feasible m x \<and> (\<forall>y. feasible m y \<longrightarrow> objective m x \<le> objective m y))"

definition build_model ::
  "NYEnvironment \<Rightarrow> LearningAgent list \<Rightarrow> Request list \<Rightarrow> assignment_model" where
  "build_model envt agents possible_targets =
     \<lparr>num_agents = length agents,
      num_targets = length possible_targets,
      cost = (\<lambda>agent_id target_id.
                get_travel_time envt (next_location (position (agents ! agent_id)))
                  (pickup (possible_targets ! target_id)))\<rparr>"

text \<open>
  The last loop of \<open>_get_rebalance_targets\<close>: for each agent, the first target whose
  variable is 1 in the solution, if there is one.
\<close>

definition assigned_targets :: "assignment \<Rightarrow> nat \<Rightarrow> Request list \<Rightarrow> Request list" where
  "assigned_targets solution n possible_targets =
     concat (map (\<lambda>agent_id.
                    case find (\<lambda>target_id. solution agent_id target_id = 1)
                           [0 ..< length possible_targets] of
                      None \<Rightarrow> []
                    | Some target_id \<Rightarrow> [possible_targets ! target_id])
               [0 ..< n])"

definition possible_targets_of :: "NYEnvironment \<Rightarrow> (nat \<Rightarrow> nat) \<Rightarrow> nat \<Rightarrow> py_error + Request list" where
  "possible_targets_of envt rnd n = sample_targets (recent_request_history envt) (map rnd [0 ..< n])"

definition get_rebalance_targets ::
  "NYEnvironment \<Rightarrow> (nat \<Rightarrow> nat) \<Rightarrow> (assignment_model \<Rightarrow> assignment option)
     \<Rightarrow> LearningAgent list \<Rightarrow> py_error + Request list" where
  "get_rebalance_targets envt rnd solve agents =
     (case possible_targets_of envt rnd (length agents) of
        Inl e \<Rightarrow> Inl e
      | Inr possible_targets \<Rightarrow>
          (case solve (build_model envt agents possible_targets) of
             None \<Rightarrow> Inl AssertionError
           | Some solution \<Rightarrow>
               Inr (assigned_targets solution (length agents) possible_targets)))"

text \<open>
  The first loop of \<open>simulate_motion\<close>: every agent is moved for one epoch; those left with
  time to spare are collected, by their index in \<open>agents\<close>, with the time left. The agents
  of the list are taken to be distinct objects, so that moving one leaves the others as
  they are.
\<close>

fun move_all ::
  "NYEnvironment \<Rightarrow> nat \<Rightarrow> LearningAgent list
     \<Rightarrow> (py_error + LearningAgent list \<times> (nat \<times> real) list) option" where
  "move_all envt i [] = Some (Inr ([], []))"
| "move_all envt i (agent # rest) =
     (case move_agent envt agent (get_epoch_length envt) of
        None \<Rightarrow> None
      | Some (Inl e) \<Rightarrow> Some (Inl e)
      | Some (Inr (agent', time_remaining)) \<Rightarrow>
          (case move_all envt (Suc i) rest of
             None \<Rightarrow> None
           | Some (Inl e) \<Rightarrow> Some (Inl e)
           | Some (Inr (rest', agents_to_rebalance)) \<Rightarrow>
               Some (Inr (agent' # rest',
                          (if time_remaining > 0 then [(i, time_remaining)] else [])
                          @ agents_to_rebalance))))"

text \<open>
  The body of the rebalancing loop for one agent: the dummy target is appended to the
  path's requests and a pickup node for request 0 to its visit order, the agent is moved
  with the time it has left, and both lists are cleared.
\<close>

definition insert_dummy_target :: "LearningAgent \<Rightarrow> Request \<Rightarrow> LearningAgent" where
  "insert_dummy_target agent target =
     agent\<lparr>path := (path agent)
              \<lparr>requests := requests (path agent) @ [\<lparr>request = target, assigned = False\<rparr>],
               request_order := request_order (path agent) @ [new_node False 0]\<rparr>\<rparr>"

definition delete_dummy_target :: "LearningAgent \<Rightarrow> LearningAgent" where
  "delete_dummy_target agent = agent\<lparr>path := (path agent)\<lparr>request_order := [], requests := []\<rparr>\<rparr>"

definition rebalance_agent ::
  "NYEnvironment \<Rightarrow> LearningAgent \<Rightarrow> Request \<Rightarrow> real \<Rightarrow> (py_error + LearningAgent) option" where
  "rebalance_agent envt agent target time_remaining =
     (case move_agent envt (insert_dummy_target agent target) time_remaining of
        None \<Rightarrow> None
      | Some (Inl e) \<Rightarrow> Some (Inl e)
      | Some (Inr (agent', _)) \<Rightarrow> Some (Inr (delete_dummy_target agent')))"

fun rebalance_loop ::
  "NYEnvironment \<Rightarrow> LearningAgent list \<Rightarrow> (nat \<times> real) list \<Rightarrow> nat \<Rightarrow> Request list
     \<Rightarrow> (py_error + LearningAgent list) option" where
  "rebalance_loop envt agents agents_to_rebalance idx [] = Some (Inr agents)"
| "rebalance_loop envt agents agents_to_rebalance idx (target # rest) =
     (if idx < length agents_to_rebalance then
        (case agents_to_rebalance ! idx of
           (i, time_remaining) \<Rightarrow>
             (case rebalance_agent envt (agents ! i) target time_remaining of
                None \<Rightarrow> None
              | Some (Inl e) \<Rightarrow> Some (Inl e)
              | Some (Inr agent') \<Rightarrow>
                  rebalance_loop envt (agents[i := agent']) agents_to_rebalance (Suc idx) rest))
      else Some (Inl IndexError))"

text \<open>
  \<open>Environment.simulate_motion\<close>. It returns nothing in the source; the result here is the
  environment and the agents as the call leaves them, and the rebalancing targets it
  handed out (empty when nobody was rebalanced).
\<close>

definition simulate_motion ::
  "NYEnvironment \<Rightarrow> (nat \<Rightarrow> nat) \<Rightarrow> (assignment_model \<Rightarrow> assignment option)
     \<Rightarrow> LearningAgent list \<Rightarrow> Request list
     \<Rightarrow> (py_error + NYEnvironment \<times> LearningAgent list \<times> Request list) option" where
  "simulate_motion envt rnd solve agents current_requests =
     (case move_all envt 0 agents of
        None \<Rightarrow> None
      | Some (Inl e) \<Rightarrow> Some (Inl e)
      | Some (Inr (agents1, agents_to_rebalance)) \<Rightarrow>
          let envt1 = update_recent_requests envt current_requests in
          if agents_to_rebalance \<noteq> [] then
            (case get_rebalance_targets envt1 rnd solve
                    (map (\<lambda>(i, _). agents1 ! i) agents_to_rebalance) of
               Inl e \<Rightarrow> Some (Inl e)
             | Inr rebalancing_targets \<Rightarrow>
                 (case rebalance_loop envt1 agents1 agents_to_rebalance 0 rebalancing_targets of
                    None \<Rightarrow> None
                  | Some (Inl e) \<Rightarrow> Some (Inl e)
                  | Some (Inr agents2) \<Rightarrow> Some (Inr (envt1, agents2, rebalancing_targets))))
          else Some (Inr (envt1, agents1, [])))"

section \<open>What the validator is checked against\<close>

text \<open>
  The quantities the claims speak of, computed from the path alone and independently of
  the validator: the arrival time at each node (running time plus the oracle's travel
  time from the previous location), each node's deadline, and the occupancy after each
  prefix of the nodes (\<open>occupancies c nodes ! k\<close> is the occupancy after the first \<open>k\<close>
  nodes, that is, before the delta of node \<open>k\<close>).
\<close>

fun arrival_times ::
  "NYEnvironment \<Rightarrow> RequestInfo list \<Rightarrow> real \<Rightarrow> location \<Rightarrow> PathNode list \<Rightarrow> real list" where
  "arrival_times envt rs t loc [] = []"
| "arrival_times envt rs t loc (node # rest) =
     (let next_loc = fst (node_info rs node);
          arrival = t + get_travel_time envt loc next_loc
      in arrival # arrival_times envt rs arrival next_loc rest)"

fun occupancies :: "int \<Rightarrow> PathNode list \<Rightarrow> int list" where
  "occupancies c [] = [c]"
| "occupancies c (node # rest) = c # occupancies (if is_dropoff node then c - 1 else c + 1) rest"

definition dropoff_slack :: "PathNode list \<Rightarrow> real list \<Rightarrow> real list \<Rightarrow> real" where
  "dropoff_slack nodes deadlines arrivals =
     (\<Sum>(node, deadline, arrival) \<leftarrow> zip nodes (zip deadlines arrivals).
        if is_dropoff node then deadline - arrival else 0)"

definition node_deadlines :: "Path \<Rightarrow> PathNode list \<Rightarrow> real list" where
  "node_deadlines p nodes = map (\<lambda>node. snd (node_info (requests p) node)) nodes"

definition node_ok ::
  "NYEnvironment \<Rightarrow> Path \<Rightarrow> real \<Rightarrow> location \<Rightarrow> int \<Rightarrow> PathNode list \<Rightarrow> nat \<Rightarrow> bool" where
  "node_ok envt p t loc c nodes j =
     (arrival_times envt (requests p) t loc nodes ! j \<le> node_deadlines p nodes ! j \<and>
      occupancies c nodes ! j \<le> MAX_CAPACITY envt)"

definition path_arrivals :: "NYEnvironment \<Rightarrow> LearningAgent \<Rightarrow> real list" where
  "path_arrivals envt agent =
     arrival_times envt (requests (path agent))
       (current_time envt + time_to_next_location (position agent))
       (next_location (position agent)) (request_order (path agent))"

definition path_deadlines :: "LearningAgent \<Rightarrow> real list" where
  "path_deadlines agent = node_deadlines (path agent) (request_order (path agent))"

definition path_occupancies :: "LearningAgent \<Rightarrow> int list" where
  "path_occupancies agent =
     occupancies (Path.current_capacity (path agent)) (request_order (path agent))"

text \<open>
  The nodes of a path with both derived fields recomputed: node \<open>j\<close> holds the arrival time
  at node \<open>j\<close> and the occupancy after node \<open>j\<close>.
\<close>

definition recomputed :: "PathNode list \<Rightarrow> real list \<Rightarrow> int list \<Rightarrow> PathNode list" where
  "recomputed nodes arrivals occupancies_after =
     map (\<lambda>(node, arrival, occupancy).
            node\<lparr>expected_visit_time := arrival, PathNode.current_capacity := occupancy\<rparr>)
         (zip nodes (zip arrivals occupancies_after))"

definition path_recomputed :: "NYEnvironment \<Rightarrow> LearningAgent \<Rightarrow> PathNode list" where
  "path_recomputed envt agent =
     recomputed (request_order (path agent)) (path_arrivals envt agent) (tl (path_occupancies agent))"

definition late :: "NYEnvironment \<Rightarrow> LearningAgent \<Rightarrow> nat \<Rightarrow> bool" where
  "late envt agent k = (path_arrivals envt agent ! k > path_deadlines agent ! k)"

definition overfull :: "NYEnvironment \<Rightarrow> LearningAgent \<Rightarrow> nat \<Rightarrow> bool" where
  "overfull envt agent k = (path_occupancies agent ! k > MAX_CAPACITY envt)"

definition well_indexed :: "Path \<Rightarrow> bool" where
  "well_indexed p = list_all (\<lambda>node. request_index node < length (requests p)) (request_order p)"


text \<open>The target an agent is assigned in a solution: the first one whose variable is 1.\<close>

definition target_of :: "assignment \<Rightarrow> nat \<Rightarrow> nat \<Rightarrow> nat" where
  "target_of x n a = (case find (\<lambda>t. x a t = 1) [0 ..< n] of None \<Rightarrow> 0 | Some t \<Rightarrow> t)"

text \<open>The assignment in which every agent \<open>a\<close> takes the target \<open>\<rho> a\<close>.\<close>

definition pick :: "(nat \<Rightarrow> nat) \<Rightarrow> assignment" where
  "pick \<rho> a t = (if t = \<rho> a then 1 else 0)"

section \<open>Reading the request file\<close>

text \<open>
  The text functions \<open>get_request_batch\<close> relies on, for the lines it can meet:
  \<open>str.strip\<close> (ASCII whitespace), \<open>int\<close> of a decimal literal with an optional sign, and
  \<open>re.match\<close> of the two patterns \<open>Flows:(\d+)-\d+\<close> and \<open>(\d+),(\d+),(\d+)\.0\<close>, which match
  at the start of the line and need not reach its end.
\<close>

definition is_digit :: "char \<Rightarrow> bool" where
  "is_digit c = (c \<in> set ''0123456789'')"

definition is_space :: "char \<Rightarrow> bool" where
  "is_space c = (c \<in> set [CHR '' '', CHR 0x09, CHR 0x0A, CHR 0x0B, CHR 0x0C, CHR 0x0D,
                           CHR 0x1C, CHR 0x1D, CHR 0x1E, CHR 0x1F])"

definition strip :: "string \<Rightarrow> string" where
  "strip s = rev (dropWhile is_space (rev (dropWhile is_space s)))"

definition digit_value :: "char \<Rightarrow> nat" where
  "digit_value c = of_char c - 48"

definition nat_of_digits :: "string \<Rightarrow> nat" where
  "nat_of_digits ds = foldl (\<lambda>n c. 10 * n + digit_value c) 0 ds"

definition int_of_line :: "string \<Rightarrow> py_error + int" where
  "int_of_line s =
     (let t = strip s;
          negative = (t \<noteq> [] \<and> hd t = CHR ''-'');
          digits = (if t \<noteq> [] \<and> (hd t = CHR ''-'' \<or> hd t = CHR ''+'') then tl t else t)
      in if digits \<noteq> [] \<and> list_all is_digit digits
         then Inr (if negative then - int (nat_of_digits digits) else int (nat_of_digits digits))
         else Inl ValueError)"

fun match_literal :: "string \<Rightarrow> string \<Rightarrow> string option" where
  "match_literal [] s = Some s"
| "match_literal (p # ps) [] = None"
| "match_literal (p # ps) (c # cs) = (if p = c then match_literal ps cs else None)"

definition match_digits :: "string \<Rightarrow> (nat \<times> string) option" where
  "match_digits s =
     (let ds = takeWhile is_digit s
      in if ds = [] then None else Some (nat_of_digits ds, dropWhile is_digit s))"

definition match_new_epoch :: "string \<Rightarrow> nat option" where
  "match_new_epoch line =
     (case match_literal ''Flows:'' line of
        None \<Rightarrow> None
      | Some s1 \<Rightarrow>
          (case match_digits s1 of
             None \<Rightarrow> None
           | Some (epoch, s2) \<Rightarrow>
               (case match_literal ''-'' s2 of
                  None \<Rightarrow> None
                | Some s3 \<Rightarrow>
                    (case match_digits s3 of None \<Rightarrow> None | Some _ \<Rightarrow> Some epoch))))"

definition match_request :: "string \<Rightarrow> (nat \<times> nat \<times> nat) option" where
  "match_request line =
     (case match_digits line of
        None \<Rightarrow> None
      | Some (g1, s1) \<Rightarrow>
          (case match_literal '','' s1 of
             None \<Rightarrow> None
           | Some s2 \<Rightarrow>
               (case match_digits s2 of
                  None \<Rightarrow> None
                | Some (g2, s3) \<Rightarrow>
                    (case match_literal '','' s3 of
                       None \<Rightarrow> None
                     | Some s4 \<Rightarrow>
                         (case match_digits s4 of
                            None \<Rightarrow> None
                          | Some (g3, s5) \<Rightarrow>
                              (case match_literal ''.0'' s5 of
                                 None \<Rightarrow> None
                               | Some _ \<Rightarrow> Some (g1, g2, g3)))))))"

text \<open>
  Modelled from the spec: the constructor \<open>Request(source, destination, current_time,
  travel_time)\<close> (missing \<open>Request.py\<close>). The two deadlines are the creation time plus the
  wait tolerance and plus the trip tolerance, configuration constants that are supplied.
\<close>

record Tolerances =
  wait_tolerance :: real
  trip_tolerance :: real

definition new_request :: "Tolerances \<Rightarrow> nat \<Rightarrow> nat \<Rightarrow> real \<Rightarrow> real \<Rightarrow> Request" where
  "new_request tol source destination now trip =
     \<lparr>pickup = source, dropoff = destination, creation_time = now, travel_time = trip,
      pickup_deadline = now + wait_tolerance tol, dropoff_deadline = now + trip_tolerance tol\<rparr>"

text \<open>
  The variables of \<open>get_request_batch\<close>. \<open>current_hour\<close> is \<open>None\<close> as long as it has not
  been assigned; \<open>clock\<close> is \<open>self.current_time\<close>; \<open>yielded\<close> collects the batches in the
  order the generator yields them, each as it is when it is yielded.
\<close>

record batch_state =
  request_list :: "Request list"
  is_first_epoch :: bool
  current_hour :: "int option"
  clock :: real
  yielded :: "Request list list"

definition hour_of :: "real \<Rightarrow> int" where
  "hour_of t = (let q = t / 3600 in if q \<ge> 0 then \<lfloor>q\<rfloor> else \<lceil>q\<rceil>)"

definition in_hours :: "int \<Rightarrow> int \<Rightarrow> int \<Rightarrow> bool" where
  "in_hours start_hour end_hour h = (h \<ge> start_hour \<and> h < end_hour)"

text \<open>The body of \<open>for line in data_file.readlines()\<close>.\<close>

definition read_line ::
  "Tolerances \<Rightarrow> NYEnvironment \<Rightarrow> int \<Rightarrow> int \<Rightarrow> batch_state \<Rightarrow> string \<Rightarrow> py_error + batch_state" where
  "read_line tol envt start_hour end_hour st raw =
     (let line = strip raw in
      case match_new_epoch line of
        Some current_epoch \<Rightarrow>
          if \<not> is_first_epoch st then
            let h = hour_of (clock st);
                st1 = st\<lparr>current_hour := Some h\<rparr>;
                st2 = (if in_hours start_hour end_hour h
                       then st1\<lparr>yielded := yielded st1 @ [request_list st1]\<rparr> else st1)
            in Inr (st2\<lparr>clock := real current_epoch * EPOCH_LENGTH, request_list := []\<rparr>)
          else Inr (st\<lparr>is_first_epoch := False\<rparr>)
      | None \<Rightarrow>
          (case match_request line of
             None \<Rightarrow> Inl AssertionError
           | Some (source, destination, num_requests) \<Rightarrow>
               Inr (st\<lparr>request_list :=
                          request_list st @
                          (if source \<notin> set (ignored_zones envt) \<and>
                              destination \<notin> set (ignored_zones envt) \<and> source \<noteq> destination
                           then replicate num_requests
                                  (new_request tol source destination (clock st)
                                     (get_travel_time envt source destination))
                           else [])\<rparr>)))"

fun read_lines ::
  "Tolerances \<Rightarrow> NYEnvironment \<Rightarrow> int \<Rightarrow> int \<Rightarrow> batch_state \<Rightarrow> string list
     \<Rightarrow> batch_state \<times> py_error option" where
  "read_lines tol envt start_hour end_hour st [] = (st, None)"
| "read_lines tol envt start_hour end_hour st (raw # rest) =
     (case read_line tol envt start_hour end_hour st raw of
        Inl e \<Rightarrow> (st, Some e)
      | Inr st' \<Rightarrow> read_lines tol envt start_hour end_hour st' rest)"

text \<open>
  \<open>NYEnvironment.get_request_batch\<close>, on the lines of the data file. The result is the
  batches yielded, the clock the environment is left with, and how the generator ends:
  \<open>None\<close> when it is exhausted, the error when it raises.
\<close>

definition get_request_batch ::
  "Tolerances \<Rightarrow> NYEnvironment \<Rightarrow> int \<Rightarrow> int \<Rightarrow> string list
     \<Rightarrow> Request list list \<times> real \<times> py_error option" where
  "get_request_batch tol envt start_hour end_hour file_lines =
     (case int_of_line (case file_lines of [] \<Rightarrow> [] | first # _ \<Rightarrow> first) of
        Inl e \<Rightarrow> ([], current_time envt, Some e)
      | Inr num_batches \<Rightarrow>
          (case read_lines tol envt start_hour end_hour
                  \<lparr>request_list = [], is_first_epoch = True, current_hour = None,
                   clock = current_time envt, yielded = []\<rparr>
                  (tl file_lines) of
             (st, Some e) \<Rightarrow> (yielded st, clock st, Some e)
           | (st, None) \<Rightarrow>
               (case current_hour st of
                  None \<Rightarrow> (yielded st, clock st, Some UnboundLocalError)
                | Some h \<Rightarrow>
                    if in_hours start_hour end_hour h
                    then (yielded st @ [request_list st], clock st, None)
                    else (yielded st, clock st, None))))"

definition epoch_headers :: "string list \<Rightarrow> nat" where
  "epoch_headers body = length (filter (\<lambda>raw. match_new_epoch (strip raw) \<noteq> None) body)"

text \<open>A line the loop accepts: an epoch header or a request line.\<close>

definition well_formed_line :: "string \<Rightarrow> bool" where
  "well_formed_line raw =
     (match_new_epoch (strip raw) \<noteq> None \<or> match_request (strip raw) \<noteq> None)"

definition tol_ex :: Tolerances where
  "tol_ex = \<lparr>wait_tolerance = 300, trip_tolerance = 600\<rparr>"


section \<open>Example vehicles\<close>

text \<open>
  A small world used to run the definitions: three locations, 35 time units from 0 to 1,
  170 from 1 to 2, 10 for any other hop; the clock at 0 and room for ten passengers.
  \<open>req_tight\<close> is the spec's scenario (deadlines 50 and 200, arrival at 40 and at 210),
  \<open>req_loose\<close> has a dropoff deadline the vehicle meets.
\<close>

definition envt_ex :: NYEnvironment where
  "envt_ex = \<lparr>current_time = 0,
              travel_time = (\<lambda>a b. if a = 0 \<and> b = 1 then 35
                                    else if a = 1 \<and> b = 2 then 170 else 10),
              shortest_path = (\<lambda>a b. b),
              ignored_zones = [],
              MAX_CAPACITY = 10,
              recent_request_history = []\<rparr>"

definition req_tight :: Request where
  "req_tight = \<lparr>pickup = 1, dropoff = 2, creation_time = 0, travel_time = 170,
                pickup_deadline = 50, dropoff_deadline = 200\<rparr>"

definition req_loose :: Request where
  "req_loose = \<lparr>pickup = 1, dropoff = 2, creation_time = 0, travel_time = 170,
                pickup_deadline = 50, dropoff_deadline = 300\<rparr>"

definition vehicle :: "Request \<Rightarrow> PathNode list \<Rightarrow> int \<Rightarrow> LearningAgent" where
  "vehicle r nodes occupancy =
     \<lparr>agent_id = 0,
      position = \<lparr>next_location = 0, time_to_next_location = 5\<rparr>,
      path = \<lparr>requests = [\<lparr>request = r, assigned = True\<rparr>], request_order = nodes,
              current_capacity = occupancy, total_delay = 0\<rparr>\<rparr>"

definition agent_valid :: LearningAgent where
  "agent_valid = vehicle req_loose [new_node False 0, new_node True 0] 0"

definition agent_late :: LearningAgent where
  "agent_late = vehicle req_tight [new_node False 0, new_node True 0] 0"

definition agent_full :: LearningAgent where
  "agent_full = vehicle req_loose [new_node False 0, new_node True 0] 11"

definition agent_negative :: LearningAgent where
  "agent_negative = vehicle req_loose [new_node True 0] 0"

definition agent_incomplete :: LearningAgent where
  "agent_incomplete = vehicle req_loose [new_node False 0] 0"

definition req_missed :: Request where
  "req_missed = \<lparr>pickup = 1, dropoff = 2, creation_time = 0, travel_time = 170,
                 pickup_deadline = 30, dropoff_deadline = 300\<rparr>"

definition agent_late_full :: LearningAgent where
  "agent_late_full = vehicle req_missed [new_node False 0, new_node True 0] 12"

definition agent_idle :: LearningAgent where
  "agent_idle = vehicle req_loose [] 0"

definition agent_fresh :: LearningAgent where
  "agent_fresh = agent_idle\<lparr>path := (path agent_idle)\<lparr>requests := []\<rparr>\<rparr>"

definition envt_stuck :: NYEnvironment where
  "envt_stuck = envt_ex\<lparr>travel_time := (\<lambda>a b. 0), shortest_path := (\<lambda>a b. a)\<rparr>"

text \<open>
  A random source that always draws 0, and a solver that answers every program with the
  diagonal assignment (agent \<open>a\<close> takes target \<open>a\<close>).
\<close>

definition draw_first :: "nat \<Rightarrow> nat" where
  "draw_first i = 0"

definition diagonal :: assignment where
  "diagonal a t = (if a = t then 1 else 0)"

definition diagonal_solver :: "assignment_model \<Rightarrow> assignment option" where
  "diagonal_solver m = Some diagonal"

text \<open>
  Two idle vehicles, at locations 0 and 1, and a history of two requests, picked up at 2
  and at 1; the random source draws the requests in turn.
\<close>

definition req_far :: Request where
  "req_far = \<lparr>pickup = 2, dropoff = 0, creation_time = 0, travel_time = 10,
              pickup_deadline = 50, dropoff_deadline = 300\<rparr>"

definition agent_at_1 :: LearningAgent where
  "agent_at_1 = agent_fresh\<lparr>position := \<lparr>next_location = 1, time_to_next_location = 5\<rparr>\<rparr>"

definition envt_two :: NYEnvironment where
  "envt_two = envt_ex\<lparr>recent_request_history := [req_far, req_loose]\<rparr>"

definition draw_in_turn :: "nat \<Rightarrow> nat" where
  "draw_in_turn i = i"

text \<open>Reading a result: the verdict of a call that returned, and the nodes it left.\<close>

definition verdict_of :: "py_error + (verdict \<times> LearningAgent \<times> issue list) \<Rightarrow> verdict option" where
  "verdict_of r = (case r of Inl e \<Rightarrow> None | Inr (v, a, w) \<Rightarrow> Some v)"

definition nodes_after :: "py_error + (verdict \<times> LearningAgent \<times> issue list) \<Rightarrow> PathNode list" where
  "nodes_after r = (case r of Inl e \<Rightarrow> [] | Inr (v, a, w) \<Rightarrow> request_order (path a))"

definition delay_after :: "py_error + (verdict \<times> LearningAgent \<times> issue list) \<Rightarrow> real option" where
  "delay_after r = (case r of Inl e \<Rightarrow> None | Inr (v, a, w) \<Rightarrow> Some (total_delay (path a)))"

section \<open>Properties of the validator's loop\<close>

lemma node_deadlines_simps [simp]:
  "node_deadlines p [] = []"
  "node_deadlines p (node # rest) = snd (node_info (requests p) node) # node_deadlines p rest"
  "length (node_deadlines p nodes) = length nodes"
  by (simp_all add: node_deadlines_def)

lemma dropoff_slack_simps [simp]:
  "dropoff_slack [] ds as = 0"
  "dropoff_slack (node # rest) (deadline # ds) (arrival # as) =
     (if is_dropoff node then deadline - arrival else 0) + dropoff_slack rest ds as"
  by (simp_all add: dropoff_slack_def)

lemma length_arrival_times [simp]: "length (arrival_times envt rs t loc ns) = length ns"
  by (induction ns arbitrary: t loc) (auto simp: Let_def)

lemma length_occupancies [simp]: "length (occupancies c ns) = Suc (length ns)"
  by (induction ns arbitrary: c) auto

lemma stale_time_update:
  "(if expected_visit_time node \<noteq> a then node\<lparr>expected_visit_time := a\<rparr> else node)
     = node\<lparr>expected_visit_time := a\<rparr>"
  by (cases node) auto

lemma stale_cap_update:
  "(if PathNode.current_capacity node \<noteq> c then node\<lparr>PathNode.current_capacity := c\<rparr> else node)
     = node\<lparr>PathNode.current_capacity := c\<rparr>"
  by (cases node) auto

lemma check_nodes_Cons_cases:
  assumes "check_nodes envt p i (node # rest) t loc c d = Inr (v, ns', d', w)"
  obtains
    (deadline) "request_index node < length (requests p)"
      "t + get_travel_time envt loc (fst (node_info (requests p) node)) > snd (node_info (requests p) node)"
      "v = Invalid (Does_not_meet_deadline i)" "ns' = node # rest"
  | (capacity) "request_index node < length (requests p)"
      "t + get_travel_time envt loc (fst (node_info (requests p) node)) \<le> snd (node_info (requests p) node)"
      "c > MAX_CAPACITY envt" "v = Invalid (Exceeds_MAX_CAPACITY i)"
      "ns' = node\<lparr>expected_visit_time := t + get_travel_time envt loc (fst (node_info (requests p) node))\<rparr> # rest"
  | (continue) rest' w' where "request_index node < length (requests p)"
      "t + get_travel_time envt loc (fst (node_info (requests p) node)) \<le> snd (node_info (requests p) node)"
      "c \<le> MAX_CAPACITY envt"
      "check_nodes envt p (Suc i) rest
         (t + get_travel_time envt loc (fst (node_info (requests p) node)))
         (fst (node_info (requests p) node))
         (if is_dropoff node then c - 1 else c + 1)
         (if is_dropoff node
          then d + (snd (node_info (requests p) node)
                    - (t + get_travel_time envt loc (fst (node_info (requests p) node))))
          else d)
       = Inr (v, rest', d', w')"
      "ns' = node\<lparr>expected_visit_time := t + get_travel_time envt loc (fst (node_info (requests p) node)),
                    PathNode.current_capacity := (if is_dropoff node then c - 1 else c + 1)\<rparr> # rest'"
proof -
  from assms have idx: "request_index node < length (requests p)"
    by (auto simp: get_info_def split: if_splits)
  obtain l dl where info: "node_info (requests p) node = (l, dl)" by (cases "node_info (requests p) node")
  let ?a = "t + get_travel_time envt loc l"
  show ?thesis
  proof (cases "?a > dl")
    case True
    with assms idx info show ?thesis
      by (intro deadline) (auto simp: get_info_def Let_def)
  next
    case late: False
    show ?thesis
    proof (cases "c > MAX_CAPACITY envt")
      case True
      with assms idx info late show ?thesis
        by (intro capacity) (auto simp: get_info_def Let_def stale_time_update)
    next
      case False
      with assms idx info late show ?thesis
        apply (simp add: get_info_def Let_def stale_time_update stale_cap_update split: sum.splits prod.splits)
        apply (erule conjE)+
        apply (rule continue)
        apply (auto simp: stale_time_update stale_cap_update split: if_splits)
        done
    qed
  qed
qed

lemma check_nodes_late:
  assumes "request_index node < length (requests p)"
    and "t + get_travel_time envt loc (fst (node_info (requests p) node)) > snd (node_info (requests p) node)"
  shows "check_nodes envt p i (node # rest) t loc c d
           = Inr (Invalid (Does_not_meet_deadline i), node # rest, d, [])"
  using assms by (auto simp: get_info_def Let_def split: prod.splits)

lemma check_nodes_full:
  assumes "request_index node < length (requests p)"
    and "t + get_travel_time envt loc (fst (node_info (requests p) node)) \<le> snd (node_info (requests p) node)"
    and "c > MAX_CAPACITY envt"
  shows "\<exists>ns' d' w. check_nodes envt p i (node # rest) t loc c d
           = Inr (Invalid (Exceeds_MAX_CAPACITY i), ns', d', w)"
  using assms by (auto simp: get_info_def Let_def split: prod.splits)

lemma check_nodes_continue:
  assumes "request_index node < length (requests p)"
    and "t + get_travel_time envt loc (fst (node_info (requests p) node)) \<le> snd (node_info (requests p) node)"
    and "c \<le> MAX_CAPACITY envt"
    and "check_nodes envt p (Suc i) rest
         (t + get_travel_time envt loc (fst (node_info (requests p) node)))
         (fst (node_info (requests p) node))
         (if is_dropoff node then c - 1 else c + 1)
         (if is_dropoff node
          then d + (snd (node_info (requests p) node)
                    - (t + get_travel_time envt loc (fst (node_info (requests p) node))))
          else d)
       = Inr (v, rest', d', w')"
  shows "\<exists>ns' w. check_nodes envt p i (node # rest) t loc c d = Inr (v, ns', d', w)"
  using assms by (auto simp: get_info_def Let_def stale_time_update stale_cap_update split: prod.splits)

lemma check_nodes_Valid_times:
  "check_nodes envt p i ns t loc c d = Inr (Valid, ns', d', w) \<Longrightarrow>
     map expected_visit_time ns' = arrival_times envt (requests p) t loc ns"
proof (induction ns arbitrary: i t loc c d ns' d' w)
  case Nil
  then show ?case by simp
next
  case (Cons node rest)
  from Cons.prems show ?case
  proof (cases rule: check_nodes_Cons_cases)
    case (continue rest' w')
    from Cons.IH[OF continue(4)] continue(5) show ?thesis by (simp add: Let_def)
  qed simp_all
qed

lemma check_nodes_Valid_caps:
  "check_nodes envt p i ns t loc c d = Inr (Valid, ns', d', w) \<Longrightarrow>
     c # map PathNode.current_capacity ns' = occupancies c ns"
proof (induction ns arbitrary: i t loc c d ns' d' w)
  case Nil
  then show ?case by simp
next
  case (Cons node rest)
  from Cons.prems show ?case
  proof (cases rule: check_nodes_Cons_cases)
    case (continue rest' w')
    from Cons.IH[OF continue(4)] continue(5) show ?thesis by simp
  qed simp_all
qed

lemma check_nodes_Valid_delay:
  "check_nodes envt p i ns t loc c d = Inr (Valid, ns', d', w) \<Longrightarrow>
     d' = d + dropoff_slack ns (node_deadlines p ns) (arrival_times envt (requests p) t loc ns)"
proof (induction ns arbitrary: i t loc c d ns' d' w)
  case Nil
  then show ?case by simp
next
  case (Cons node rest)
  from Cons.prems show ?case
  proof (cases rule: check_nodes_Cons_cases)
    case (continue rest' w')
    from Cons.IH[OF continue(4)] show ?thesis by (simp add: Let_def)
  qed simp_all
qed

lemma check_nodes_static:
  "check_nodes envt p i ns t loc c d = Inr (v, ns', d', w) \<Longrightarrow>
     map is_dropoff ns' = map is_dropoff ns \<and> map request_index ns' = map request_index ns"
proof (induction ns arbitrary: i t loc c d ns' d' w)
  case Nil
  then show ?case by simp
next
  case (Cons node rest)
  from Cons.prems show ?case
  proof (cases rule: check_nodes_Cons_cases)
    case (continue rest' w')
    from Cons.IH[OF continue(4)] continue(5) show ?thesis by simp
  qed simp_all
qed

lemma check_nodes_verdict:
  assumes "check_nodes envt p i ns t loc c d = Inr (v, ns', d', w)"
  shows "(v = Valid \<and> (\<forall>j<length ns. node_ok envt p t loc c ns j))
       \<or> (\<exists>j<length ns. (\<forall>j'<j. node_ok envt p t loc c ns j') \<and>
             arrival_times envt (requests p) t loc ns ! j > node_deadlines p ns ! j \<and>
             v = Invalid (Does_not_meet_deadline (i + j)) \<and> drop j ns' = drop j ns)
       \<or> (\<exists>j<length ns. (\<forall>j'<j. node_ok envt p t loc c ns j') \<and>
             arrival_times envt (requests p) t loc ns ! j \<le> node_deadlines p ns ! j \<and>
             occupancies c ns ! j > MAX_CAPACITY envt \<and>
             v = Invalid (Exceeds_MAX_CAPACITY (i + j)) \<and> drop (Suc j) ns' = drop (Suc j) ns)"
  using assms
proof (induction ns arbitrary: i t loc c d ns' d' w)
  case Nil
  then show ?case by simp
next
  case (Cons node rest)
  from Cons.prems show ?case
  proof (cases rule: check_nodes_Cons_cases)
    case deadline
    then have "\<exists>j<length (node # rest). (\<forall>j'<j. node_ok envt p t loc c (node # rest) j') \<and>
             arrival_times envt (requests p) t loc (node # rest) ! j > node_deadlines p (node # rest) ! j \<and>
             v = Invalid (Does_not_meet_deadline (i + j)) \<and> drop j ns' = drop j (node # rest)"
      by (intro exI[of _ 0]) (simp add: Let_def)
    then show ?thesis by blast
  next
    case capacity
    then have "\<exists>j<length (node # rest). (\<forall>j'<j. node_ok envt p t loc c (node # rest) j') \<and>
             arrival_times envt (requests p) t loc (node # rest) ! j \<le> node_deadlines p (node # rest) ! j \<and>
             occupancies c (node # rest) ! j > MAX_CAPACITY envt \<and>
             v = Invalid (Exceeds_MAX_CAPACITY (i + j)) \<and> drop (Suc j) ns' = drop (Suc j) (node # rest)"
      by (intro exI[of _ 0]) (simp add: Let_def)
    then show ?thesis by blast
  next
    case (continue rest' w')
    let ?t = "t + get_travel_time envt loc (fst (node_info (requests p) node))"
    let ?l = "fst (node_info (requests p) node)"
    let ?c = "if is_dropoff node then c - 1 else c + 1"
    have ok0: "node_ok envt p t loc c (node # rest) 0"
      using continue(2,3) by (simp add: node_ok_def Let_def)
    have shift: "node_ok envt p t loc c (node # rest) (Suc j) = node_ok envt p ?t ?l ?c rest j" for j
      by (simp add: node_ok_def Let_def)
    have all_shift: "(\<forall>j'<Suc j. node_ok envt p t loc c (node # rest) j')
                      = (\<forall>j'<j. node_ok envt p ?t ?l ?c rest j')" for j
      using ok0 shift by (auto simp: less_Suc_eq_0_disj)
    from Cons.IH[OF continue(4)] consider
      (a) "v = Valid" "\<forall>j<length rest. node_ok envt p ?t ?l ?c rest j"
    | (b) j where "j < length rest" "\<forall>j'<j. node_ok envt p ?t ?l ?c rest j'"
          "arrival_times envt (requests p) ?t ?l rest ! j > node_deadlines p rest ! j"
          "v = Invalid (Does_not_meet_deadline (Suc i + j))" "drop j rest' = drop j rest"
    | (c) j where "j < length rest" "\<forall>j'<j. node_ok envt p ?t ?l ?c rest j'"
          "arrival_times envt (requests p) ?t ?l rest ! j \<le> node_deadlines p rest ! j"
          "occupancies ?c rest ! j > MAX_CAPACITY envt"
          "v = Invalid (Exceeds_MAX_CAPACITY (Suc i + j))" "drop (Suc j) rest' = drop (Suc j) rest"
      by blast
    then show ?thesis
    proof cases
      case a
      then have "\<forall>j<length (node # rest). node_ok envt p t loc c (node # rest) j"
        using all_shift[of "length rest"] by simp
      with a show ?thesis by blast
    next
      case b
      have "\<exists>j<length (node # rest). (\<forall>j'<j. node_ok envt p t loc c (node # rest) j') \<and>
             arrival_times envt (requests p) t loc (node # rest) ! j > node_deadlines p (node # rest) ! j \<and>
             v = Invalid (Does_not_meet_deadline (i + j)) \<and> drop j ns' = drop j (node # rest)"
        using b continue(5) all_shift[of j] by (intro exI[of _ "Suc j"]) (simp add: Let_def)
      then show ?thesis by blast
    next
      case c
      have "\<exists>j<length (node # rest). (\<forall>j'<j. node_ok envt p t loc c (node # rest) j') \<and>
             arrival_times envt (requests p) t loc (node # rest) ! j \<le> node_deadlines p (node # rest) ! j \<and>
             occupancies c (node # rest) ! j > MAX_CAPACITY envt \<and>
             v = Invalid (Exceeds_MAX_CAPACITY (i + j)) \<and> drop (Suc j) ns' = drop (Suc j) (node # rest)"
        using c continue(5) all_shift[of j] by (intro exI[of _ "Suc j"]) (simp add: Let_def)
      then show ?thesis by blast
    qed
  qed
qed

lemma recomputed_Nil: "recomputed [] as cs = []"
  by (simp add: recomputed_def)

lemma recomputed_Cons:
  "recomputed (node # rest) (a # as) (c # cs) =
     node\<lparr>expected_visit_time := a, PathNode.current_capacity := c\<rparr> # recomputed rest as cs"
  by (simp add: recomputed_def)

lemma tl_occupancies_Cons:
  "tl (occupancies c (node # rest)) =
     (if is_dropoff node then c - 1 else c + 1) # tl (occupancies (if is_dropoff node then c - 1 else c + 1) rest)"
  by (cases rest) simp_all

lemma recomputed_path_Cons:
  "recomputed (node # rest) (arrival_times envt rs t loc (node # rest)) (tl (occupancies c (node # rest)))
   = node\<lparr>expected_visit_time := t + get_travel_time envt loc (fst (node_info rs node)),
           PathNode.current_capacity := (if is_dropoff node then c - 1 else c + 1)\<rparr>
     # recomputed rest
         (arrival_times envt rs (t + get_travel_time envt loc (fst (node_info rs node)))
            (fst (node_info rs node)) rest)
         (tl (occupancies (if is_dropoff node then c - 1 else c + 1) rest))"
  unfolding tl_occupancies_Cons arrival_times.simps Let_def recomputed_Cons ..

text \<open>The nodes a call leaves, node by node.\<close>

lemma check_nodes_shape:
  assumes "check_nodes envt p i ns t loc c d = Inr (v, ns', d', w)"
  shows "(v = Valid \<and>
           ns' = recomputed ns (arrival_times envt (requests p) t loc ns) (tl (occupancies c ns)))
       \<or> (\<exists>j<length ns. v = Invalid (Does_not_meet_deadline (i + j)) \<and>
             ns' = take j (recomputed ns (arrival_times envt (requests p) t loc ns) (tl (occupancies c ns)))
                   @ drop j ns)
       \<or> (\<exists>j<length ns. v = Invalid (Exceeds_MAX_CAPACITY (i + j)) \<and>
             ns' = take j (recomputed ns (arrival_times envt (requests p) t loc ns) (tl (occupancies c ns)))
                   @ (ns ! j)\<lparr>expected_visit_time := arrival_times envt (requests p) t loc ns ! j\<rparr>
                   # drop (Suc j) ns)"
  using assms
proof (induction ns arbitrary: i t loc c d ns' d' w)
  case Nil
  then show ?case by (simp add: recomputed_Nil)
next
  case (Cons node rest)
  let ?t = "t + get_travel_time envt loc (fst (node_info (requests p) node))"
  let ?l = "fst (node_info (requests p) node)"
  let ?c = "if is_dropoff node then c - 1 else c + 1"
  let ?A = "arrival_times envt (requests p) t loc (node # rest)"
  let ?A' = "arrival_times envt (requests p) ?t ?l rest"
  let ?F = "recomputed (node # rest) ?A (tl (occupancies c (node # rest)))"
  let ?F' = "recomputed rest ?A' (tl (occupancies ?c rest))"
  have F: "?F = node\<lparr>expected_visit_time := ?t, PathNode.current_capacity := ?c\<rparr> # ?F'"
    by (rule recomputed_path_Cons)
  have A0: "?A ! 0 = ?t" and AS: "\<And>j. ?A ! Suc j = ?A' ! j"
    by (simp_all add: Let_def)
  from Cons.prems show ?case
  proof (cases rule: check_nodes_Cons_cases)
    case deadline
    have "0 < length (node # rest) \<and> v = Invalid (Does_not_meet_deadline (i + 0)) \<and>
             ns' = take 0 ?F @ drop 0 (node # rest)"
      using deadline(3,4) by simp
    then show ?thesis by blast
  next
    case capacity
    have "0 < length (node # rest) \<and> v = Invalid (Exceeds_MAX_CAPACITY (i + 0)) \<and>
             ns' = take 0 ?F @ ((node # rest) ! 0)\<lparr>expected_visit_time := ?A ! 0\<rparr>
                   # drop (Suc 0) (node # rest)"
      using capacity(4,5) unfolding A0 by simp
    then show ?thesis by blast
  next
    case (continue rest' w')
    from Cons.IH[OF continue(4)] consider
      (a) "v = Valid" "rest' = ?F'"
    | (b) j where "j < length rest" "v = Invalid (Does_not_meet_deadline (Suc i + j))"
          "rest' = take j ?F' @ drop j rest"
    | (c) j where "j < length rest" "v = Invalid (Exceeds_MAX_CAPACITY (Suc i + j))"
          "rest' = take j ?F' @ (rest ! j)\<lparr>expected_visit_time := ?A' ! j\<rparr> # drop (Suc j) rest"
      by blast
    then show ?thesis
    proof cases
      case a
      from continue(5) a(2) have "ns' = ?F" unfolding F by simp
      with a(1) show ?thesis by blast
    next
      case b
      have "Suc j < length (node # rest) \<and> v = Invalid (Does_not_meet_deadline (i + Suc j)) \<and>
             ns' = take (Suc j) ?F @ drop (Suc j) (node # rest)"
        using b continue(5) unfolding F by simp
      then show ?thesis by blast
    next
      case c
      have "Suc j < length (node # rest) \<and> v = Invalid (Exceeds_MAX_CAPACITY (i + Suc j)) \<and>
             ns' = take (Suc j) ?F @ ((node # rest) ! Suc j)\<lparr>expected_visit_time := ?A ! Suc j\<rparr>
                   # drop (Suc (Suc j)) (node # rest)"
        using c continue(5) unfolding F AS by simp
      then show ?thesis by blast
    qed
  qed
qed

lemma check_nodes_total:
  "list_all (\<lambda>node. request_index node < length (requests p)) ns \<Longrightarrow>
     \<exists>v ns' d' w. check_nodes envt p i ns t loc c d = Inr (v, ns', d', w)"
proof (induction ns arbitrary: i t loc c d)
  case Nil
  then show ?case by simp
next
  case (Cons node rest)
  then have idx: "request_index node < length (requests p)"
    and rest: "list_all (\<lambda>node. request_index node < length (requests p)) rest"
    by simp_all
  let ?a = "t + get_travel_time envt loc (fst (node_info (requests p) node))"
  let ?dl = "snd (node_info (requests p) node)"
  consider (late) "?a > ?dl" | (full) "?a \<le> ?dl" "c > MAX_CAPACITY envt"
    | (ok) "?a \<le> ?dl" "c \<le> MAX_CAPACITY envt"
    by linarith
  then show ?case
  proof cases
    case late
    from check_nodes_late[OF idx late] show ?thesis by blast
  next
    case full
    with idx check_nodes_full[of node p t envt loc c i rest d] show ?thesis by blast
  next
    case ok
    from Cons.IH[OF rest] obtain v rest' d' w' where
      "check_nodes envt p (Suc i) rest ?a (fst (node_info (requests p) node))
         (if is_dropoff node then c - 1 else c + 1)
         (if is_dropoff node then d + (?dl - ?a) else d) = Inr (v, rest', d', w')"
      by blast
    from check_nodes_continue[OF idx ok this] show ?thesis by blast
  qed
qed


section \<open>Properties of the validator\<close>

lemma has_valid_path_cases:
  assumes "has_valid_path is_complete envt agent = Inr (v, agent', w)"
  obtains (incomplete) "\<not> is_complete (path agent)" "v = Invalid Incomplete_path"
      "agent' = agent" "w = []"
  | (checked) ns' d' where "is_complete (path agent)"
      "check_nodes envt (path agent) 0 (request_order (path agent))
    (current_time envt + time_to_next_location (position agent))
    (next_location (position agent)) (Path.current_capacity (path agent)) 0 = Inr (v, ns', d', w)"
      "agent' = agent\<lparr>path := (path agent)\<lparr>request_order := ns',
          total_delay := (if v = Valid then d' else total_delay (path agent))\<rparr>\<rparr>"
  using assms unfolding has_valid_path_def
  by (auto split: if_splits sum.splits prod.splits)

lemma has_valid_path_checked:
  assumes "is_complete (path agent)"
    and "check_nodes envt (path agent) 0 (request_order (path agent))
    (current_time envt + time_to_next_location (position agent))
    (next_location (position agent)) (Path.current_capacity (path agent)) 0 = Inr (v, ns', d', w)"
  shows "\<exists>agent'. has_valid_path is_complete envt agent = Inr (v, agent', w)"
  using assms unfolding has_valid_path_def by simp

lemma node_ok_agent:
  "node_ok envt (path agent) (current_time envt + time_to_next_location (position agent))
     (next_location (position agent)) (Path.current_capacity (path agent))
     (request_order (path agent)) j
   = (\<not> late envt agent j \<and> \<not> overfull envt agent j)"
  by (auto simp: node_ok_def late_def overfull_def path_arrivals_def path_deadlines_def
      path_occupancies_def)

text \<open>The verdict of a call that returns, in terms of the first late or overfull node.\<close>

lemma has_valid_path_verdict:
  assumes "has_valid_path is_complete envt agent = Inr (v, agent', w)"
    and "is_complete (path agent)"
  shows "(v = Valid \<and> (\<forall>j<length (request_order (path agent)).
                          \<not> late envt agent j \<and> \<not> overfull envt agent j))
       \<or> (\<exists>j<length (request_order (path agent)).
             (\<forall>j'<j. \<not> late envt agent j' \<and> \<not> overfull envt agent j') \<and>
             late envt agent j \<and> v = Invalid (Does_not_meet_deadline j) \<and>
             drop j (request_order (path agent')) = drop j (request_order (path agent)))
       \<or> (\<exists>j<length (request_order (path agent)).
             (\<forall>j'<j. \<not> late envt agent j' \<and> \<not> overfull envt agent j') \<and>
             \<not> late envt agent j \<and> overfull envt agent j \<and>
             v = Invalid (Exceeds_MAX_CAPACITY j) \<and>
             drop (Suc j) (request_order (path agent')) = drop (Suc j) (request_order (path agent)))"
  using assms(1)
proof (cases rule: has_valid_path_cases)
  case incomplete
  with assms(2) show ?thesis by simp
next
  case (checked ns' d')
  have ro: "request_order (path agent') = ns'" using checked(3) by simp
  from check_nodes_verdict[OF checked(2)] show ?thesis
    unfolding node_ok_agent ro
    by (simp add: late_def overfull_def path_arrivals_def path_deadlines_def
      path_occupancies_def not_less)
qed

lemma has_valid_path_total:
  assumes "well_indexed (path agent)"
  shows "\<exists>v agent' w. has_valid_path is_complete envt agent = Inr (v, agent', w)"
proof (cases "is_complete (path agent)")
  case False
  then show ?thesis by (simp add: has_valid_path_def)
next
  case True
  from check_nodes_total[OF assms[unfolded well_indexed_def]]
  obtain v ns' d' w where
    "check_nodes envt (path agent) 0 (request_order (path agent))
    (current_time envt + time_to_next_location (position agent))
    (next_location (position agent)) (Path.current_capacity (path agent)) 0 = Inr (v, ns', d', w)"
    by blast
  from has_valid_path_checked[of is_complete agent, OF True this] show ?thesis by blast
qed

lemma occupancies_0 [simp]: "occupancies c ns ! 0 = c"
  by (cases ns) auto

lemma occupancies_Suc:
  "j < length ns \<Longrightarrow>
     occupancies c ns ! Suc j = occupancies c ns ! j + (if is_dropoff (ns ! j) then - 1 else 1)"
proof (induction ns arbitrary: c j)
  case Nil
  then show ?case by simp
next
  case (Cons node rest)
  then show ?case by (cases j) auto
qed

lemma occupancies_not_Nil [simp]: "occupancies c ns \<noteq> []"
  by (cases ns) auto

lemma last_occupancies: "last (occupancies c ns) = occupancies c ns ! length ns"
  by (simp add: last_conv_nth)

text \<open>The definitions unfolded to run the examples.\<close>

lemmas ex_defs =
  has_valid_path_def visits_all_requests_def envt_ex_def req_tight_def req_loose_def req_missed_def
  new_node_def vehicle_def agent_valid_def agent_late_def agent_full_def agent_negative_def
  agent_late_full_def agent_incomplete_def agent_idle_def agent_fresh_def envt_stuck_def req_far_def agent_at_1_def envt_two_def draw_in_turn_def get_info_def node_info_def get_travel_time_def Let_def
  verdict_of_def nodes_after_def delay_after_def
  path_arrivals_def path_deadlines_def path_occupancies_def node_deadlines_def
  late_def overfull_def well_indexed_def

text \<open>
  Claim C1, as amended. A path the validator accepts has an occupancy of at most
  \<open>MAX_CAPACITY\<close> after every proper prefix of its nodes (the occupancy before each node's
  delta is what the loop compares), and after the whole path when its last node is a
  dropoff; no lower bound is checked. On a complete path whose node indices are in range,
  the validator ends with the capacity report at node \<open>k\<close> exactly when \<open>k\<close> is the first
  node whose occupancy before its delta exceeds \<open>MAX_CAPACITY\<close> and no node up to and
  including \<open>k\<close> misses its deadline.
\<close>

theorem capacity_checked_before_each_node:
  "(has_valid_path is_complete envt agent = Inr (Valid, agent', w) \<longrightarrow>
      (\<forall>k<length (request_order (path agent)). path_occupancies agent ! k \<le> MAX_CAPACITY envt) \<and>
      (request_order (path agent) \<noteq> [] \<and> is_dropoff (last (request_order (path agent)))
         \<longrightarrow> last (path_occupancies agent) \<le> MAX_CAPACITY envt))
   \<and> (is_complete (path agent) \<and> well_indexed (path agent) \<longrightarrow>
        ((\<exists>agent'' w'. has_valid_path is_complete envt agent
                         = Inr (Invalid (Exceeds_MAX_CAPACITY k), agent'', w'))
         \<longleftrightarrow> (k < length (request_order (path agent)) \<and> overfull envt agent k \<and>
              (\<forall>j<k. \<not> overfull envt agent j) \<and> (\<forall>j\<le>k. \<not> late envt agent j))))"
proof (intro conjI impI)
  assume ok: "has_valid_path is_complete envt agent = Inr (Valid, agent', w)"
  then have c: "is_complete (path agent)"
    by (cases rule: has_valid_path_cases) simp_all
  from has_valid_path_verdict[OF ok c]
  have all: "\<forall>j<length (request_order (path agent)). \<not> overfull envt agent j" by auto
  then show "\<forall>k<length (request_order (path agent)). path_occupancies agent ! k \<le> MAX_CAPACITY envt"
    by (simp add: overfull_def not_less)
  assume nonempty: "request_order (path agent) \<noteq> [] \<and> is_dropoff (last (request_order (path agent)))"
  let ?ns = "request_order (path agent)"
  from nonempty obtain m where m: "length ?ns = Suc m" by (cases ?ns) auto
  have "last (path_occupancies agent) = path_occupancies agent ! Suc m"
    by (simp add: path_occupancies_def last_occupancies m)
  also have "\<dots> = path_occupancies agent ! m + (if is_dropoff (?ns ! m) then - 1 else 1)"
    unfolding path_occupancies_def using m by (intro occupancies_Suc) simp
  also have "?ns ! m = last ?ns" using nonempty m by (simp add: last_conv_nth)
  finally have "last (path_occupancies agent) = path_occupancies agent ! m - 1"
    using nonempty by simp
  moreover have "path_occupancies agent ! m \<le> MAX_CAPACITY envt"
    using all m by (simp add: overfull_def not_less)
  ultimately show "last (path_occupancies agent) \<le> MAX_CAPACITY envt" by simp
next
  assume "is_complete (path agent) \<and> well_indexed (path agent)"
  then have c: "is_complete (path agent)" and wi: "well_indexed (path agent)" by simp_all
  let ?n = "length (request_order (path agent))"
  show "(\<exists>agent'' w'. has_valid_path is_complete envt agent
                         = Inr (Invalid (Exceeds_MAX_CAPACITY k), agent'', w'))
         \<longleftrightarrow> (k < ?n \<and> overfull envt agent k \<and>
              (\<forall>j<k. \<not> overfull envt agent j) \<and> (\<forall>j\<le>k. \<not> late envt agent j))"
  proof
    assume "\<exists>agent'' w'. has_valid_path is_complete envt agent
                         = Inr (Invalid (Exceeds_MAX_CAPACITY k), agent'', w')"
    then obtain a' w' where "has_valid_path is_complete envt agent
                         = Inr (Invalid (Exceeds_MAX_CAPACITY k), a', w')" by blast
    from has_valid_path_verdict[OF this c]
    show "k < ?n \<and> overfull envt agent k \<and>
              (\<forall>j<k. \<not> overfull envt agent j) \<and> (\<forall>j\<le>k. \<not> late envt agent j)"
      by (auto simp: le_less)
  next
    assume rhs: "k < ?n \<and> overfull envt agent k \<and>
              (\<forall>j<k. \<not> overfull envt agent j) \<and> (\<forall>j\<le>k. \<not> late envt agent j)"
    from has_valid_path_total[OF wi] obtain v a' w' where
      r: "has_valid_path is_complete envt agent = Inr (v, a', w')" by blast
    from has_valid_path_verdict[OF r c] rhs have "v = Invalid (Exceeds_MAX_CAPACITY k)"
      by (metis le_less linorder_neqE_nat)
    with r show "\<exists>agent'' w'. has_valid_path is_complete envt agent
                         = Inr (Invalid (Exceeds_MAX_CAPACITY k), agent'', w')" by blast
  qed
qed

text \<open>
  Claim C1 as stated fails: a vehicle with nobody on board and one dropoff left is accepted
  with an occupancy of \<open>-1\<close> after the dropoff; and a vehicle that is over capacity at node 0
  but also late there gets the deadline report, not the capacity report.
\<close>

theorem capacity_range_counterexample:
  "verdict_of (has_valid_path visits_all_requests envt_ex agent_negative) = Some Valid
   \<and> path_occupancies agent_negative ! 1 = - 1
   \<and> \<not> (0 \<le> path_occupancies agent_negative ! 1)
   \<and> overfull envt_ex agent_late_full 0
   \<and> verdict_of (has_valid_path visits_all_requests envt_ex agent_late_full)
       = Some (Invalid (Does_not_meet_deadline 0))"
  by (simp add: ex_defs)

text \<open>The amended claim C1 at the accepted vehicle and at the full vehicle.\<close>

theorem capacity_checked_before_each_node_witness:
  "verdict_of (has_valid_path visits_all_requests envt_ex agent_valid) = Some Valid
   \<and> path_occupancies agent_valid ! 0 \<le> MAX_CAPACITY envt_ex
   \<and> path_occupancies agent_valid ! 1 \<le> MAX_CAPACITY envt_ex
   \<and> last (path_occupancies agent_valid) \<le> MAX_CAPACITY envt_ex
   \<and> visits_all_requests (path agent_full) \<and> well_indexed (path agent_full)
   \<and> overfull envt_ex agent_full 0
   \<and> (\<exists>agent' w. has_valid_path visits_all_requests envt_ex agent_full
                     = Inr (Invalid (Exceeds_MAX_CAPACITY 0), agent', w))"
proof -
  obtain a w where r: "has_valid_path visits_all_requests envt_ex agent_valid = Inr (Valid, a, w)"
    by (simp add: ex_defs)
  have len: "length (request_order (path agent_valid)) = 2"
    and last: "request_order (path agent_valid) \<noteq> [] \<and> is_dropoff (last (request_order (path agent_valid)))"
    by (simp_all add: ex_defs)
  note inst = capacity_checked_before_each_node[of visits_all_requests envt_ex agent_valid a w 0]
  from inst r len have "path_occupancies agent_valid ! 0 \<le> MAX_CAPACITY envt_ex"
    and "path_occupancies agent_valid ! 1 \<le> MAX_CAPACITY envt_ex" by simp_all
  moreover from inst r last have "last (path_occupancies agent_valid) \<le> MAX_CAPACITY envt_ex"
    by blast
  moreover have pre: "visits_all_requests (path agent_full) \<and> well_indexed (path agent_full)"
    by (simp add: ex_defs)
  moreover have rhs: "0 < length (request_order (path agent_full)) \<and> overfull envt_ex agent_full 0
      \<and> (\<forall>j<0. \<not> overfull envt_ex agent_full j) \<and> (\<forall>j\<le>0. \<not> late envt_ex agent_full j)"
    by (simp add: ex_defs)
  moreover from capacity_checked_before_each_node[of visits_all_requests envt_ex agent_full a w 0] pre rhs
  have "\<exists>agent' w. has_valid_path visits_all_requests envt_ex agent_full
                     = Inr (Invalid (Exceeds_MAX_CAPACITY 0), agent', w)"
    by blast
  moreover from r have "verdict_of (has_valid_path visits_all_requests envt_ex agent_valid) = Some Valid"
    by (simp add: verdict_of_def)
  ultimately show ?thesis by blast
qed

text \<open>
  Claim C2, as amended. On a complete path whose node indices are in range, the validator
  ends with the deadline report at node \<open>k\<close> exactly when \<open>k\<close> is the first node whose
  arrival time is strictly greater than its deadline and no node before \<open>k\<close> is over
  capacity; an arrival time equal to the deadline is not late. When no node is over
  capacity, the validator fails exactly when some node is late.
\<close>

theorem deadline_reported_at_first_late_node:
  assumes "is_complete (path agent)" and "well_indexed (path agent)"
  shows "((\<exists>agent' w. has_valid_path is_complete envt agent
                         = Inr (Invalid (Does_not_meet_deadline k), agent', w))
          \<longleftrightarrow> (k < length (request_order (path agent)) \<and> late envt agent k \<and>
               (\<forall>j<k. \<not> late envt agent j \<and> \<not> overfull envt agent j)))
       \<and> ((\<forall>j<length (request_order (path agent)). \<not> overfull envt agent j) \<longrightarrow>
            ((\<exists>iss agent' w. has_valid_path is_complete envt agent = Inr (Invalid iss, agent', w))
             \<longleftrightarrow> (\<exists>j<length (request_order (path agent)). late envt agent j)))"
proof (intro conjI impI)
  let ?n = "length (request_order (path agent))"
  show "(\<exists>agent' w. has_valid_path is_complete envt agent
                         = Inr (Invalid (Does_not_meet_deadline k), agent', w))
          \<longleftrightarrow> (k < ?n \<and> late envt agent k \<and>
               (\<forall>j<k. \<not> late envt agent j \<and> \<not> overfull envt agent j))"
  proof
    assume "\<exists>agent' w. has_valid_path is_complete envt agent
                         = Inr (Invalid (Does_not_meet_deadline k), agent', w)"
    then obtain a' w' where "has_valid_path is_complete envt agent
                         = Inr (Invalid (Does_not_meet_deadline k), a', w')" by blast
    from has_valid_path_verdict[OF this assms(1)]
    show "k < ?n \<and> late envt agent k \<and>
               (\<forall>j<k. \<not> late envt agent j \<and> \<not> overfull envt agent j)"
      by auto
  next
    assume rhs: "k < ?n \<and> late envt agent k \<and>
               (\<forall>j<k. \<not> late envt agent j \<and> \<not> overfull envt agent j)"
    from has_valid_path_total[OF assms(2)] obtain v a' w' where
      r: "has_valid_path is_complete envt agent = Inr (v, a', w')" by blast
    from has_valid_path_verdict[OF r assms(1)] rhs have "v = Invalid (Does_not_meet_deadline k)"
      by (metis linorder_neqE_nat)
    with r show "\<exists>agent' w. has_valid_path is_complete envt agent
                         = Inr (Invalid (Does_not_meet_deadline k), agent', w)" by blast
  qed
next
  let ?n = "length (request_order (path agent))"
  assume nofull: "\<forall>j<?n. \<not> overfull envt agent j"
  show "(\<exists>iss agent' w. has_valid_path is_complete envt agent = Inr (Invalid iss, agent', w))
             \<longleftrightarrow> (\<exists>j<?n. late envt agent j)"
  proof
    assume "\<exists>iss agent' w. has_valid_path is_complete envt agent = Inr (Invalid iss, agent', w)"
    then obtain iss a' w' where "has_valid_path is_complete envt agent = Inr (Invalid iss, a', w')"
      by blast
    from has_valid_path_verdict[OF this assms(1)] nofull show "\<exists>j<?n. late envt agent j"
      by auto
  next
    assume l: "\<exists>j<?n. late envt agent j"
    from has_valid_path_total[OF assms(2)] obtain v a' w' where
      r: "has_valid_path is_complete envt agent = Inr (v, a', w')" by blast
    from has_valid_path_verdict[OF r assms(1)] l have "v \<noteq> Valid" by auto
    then obtain iss where "v = Invalid iss" by (cases v) auto
    with r show "\<exists>iss agent' w. has_valid_path is_complete envt agent = Inr (Invalid iss, agent', w)"
      by blast
  qed
qed

text \<open>
  Claim C2 as stated fails: the full vehicle has a complete path on which no node is late,
  and the validator fails on it (with the capacity report).
\<close>

theorem deadline_exactly_counterexample:
  "visits_all_requests (path agent_full)
   \<and> verdict_of (has_valid_path visits_all_requests envt_ex agent_full)
       = Some (Invalid (Exceeds_MAX_CAPACITY 0))
   \<and> length (request_order (path agent_full)) = 2
   \<and> \<not> late envt_ex agent_full 0 \<and> \<not> late envt_ex agent_full 1"
  by (simp add: ex_defs)

text \<open>
  The amended claim C2 at the spec's scenario: the pickup is reached at 40 (deadline 50),
  the dropoff at 210 (deadline 200); the report names node 1.
\<close>

theorem deadline_reported_at_first_late_node_witness:
  "visits_all_requests (path agent_late) \<and> well_indexed (path agent_late)
   \<and> late envt_ex agent_late 1 \<and> \<not> late envt_ex agent_late 0
   \<and> (\<exists>agent' w. has_valid_path visits_all_requests envt_ex agent_late
                     = Inr (Invalid (Does_not_meet_deadline 1), agent', w))
   \<and> (\<exists>iss agent' w. has_valid_path visits_all_requests envt_ex agent_late
                     = Inr (Invalid iss, agent', w))"
proof -
  have c: "visits_all_requests (path agent_late)" and wi: "well_indexed (path agent_late)"
    by (simp_all add: ex_defs)
  have l: "late envt_ex agent_late 1" "\<not> late envt_ex agent_late 0"
    "\<not> overfull envt_ex agent_late 0" "\<not> overfull envt_ex agent_late 1"
    "length (request_order (path agent_late)) = 2"
    by (simp_all add: ex_defs)
  note inst = deadline_reported_at_first_late_node[of visits_all_requests agent_late envt_ex 1, OF c wi]
  from l have "1 < length (request_order (path agent_late)) \<and> late envt_ex agent_late 1 \<and>
               (\<forall>j<1. \<not> late envt_ex agent_late j \<and> \<not> overfull envt_ex agent_late j)"
    by simp
  with inst have a: "\<exists>agent' w. has_valid_path visits_all_requests envt_ex agent_late
                     = Inr (Invalid (Does_not_meet_deadline 1), agent', w)" by blast
  from l have nofull: "\<forall>j<length (request_order (path agent_late)). \<not> overfull envt_ex agent_late j"
    by (simp add: less_Suc_eq numeral_2_eq_2)
  from l have "\<exists>j<length (request_order (path agent_late)). late envt_ex agent_late j"
    by (intro exI[of _ 1]) simp
  with inst nofull have "\<exists>iss agent' w. has_valid_path visits_all_requests envt_ex agent_late
                     = Inr (Invalid iss, agent', w)" by blast
  with a c wi l show ?thesis by blast
qed

text \<open>
  Claim C3. When the validator accepts, every node's \<open>expected_visit_time\<close> is the arrival
  time computed for it, every node's \<open>current_capacity\<close> is the occupancy after it, and the
  path's \<open>total_delay\<close> is the sum over the dropoff nodes of deadline minus arrival time.
\<close>

theorem accepted_path_holds_fresh_values:
  assumes "has_valid_path is_complete envt agent = Inr (Valid, agent', w)"
  shows "map expected_visit_time (request_order (path agent')) = path_arrivals envt agent
       \<and> map PathNode.current_capacity (request_order (path agent')) = tl (path_occupancies agent)
       \<and> total_delay (path agent')
           = dropoff_slack (request_order (path agent)) (path_deadlines agent) (path_arrivals envt agent)"
  using assms
proof (cases rule: has_valid_path_cases)
  case incomplete
  then show ?thesis by simp
next
  case (checked ns' d')
  from check_nodes_Valid_caps[OF checked(2)]
  have "map PathNode.current_capacity ns' = tl (path_occupancies agent)"
    unfolding path_occupancies_def by (metis list.sel(3))
  with check_nodes_Valid_times[OF checked(2)] check_nodes_Valid_delay[OF checked(2)] checked(3)
  show ?thesis
    by (simp add: path_arrivals_def path_deadlines_def)
qed

text \<open>Claim C3 at the accepted vehicle.\<close>

theorem accepted_path_holds_fresh_values_witness:
  "verdict_of (has_valid_path visits_all_requests envt_ex agent_valid) = Some Valid
   \<and> map expected_visit_time (nodes_after (has_valid_path visits_all_requests envt_ex agent_valid))
       = [40, 210]
   \<and> path_arrivals envt_ex agent_valid = [40, 210]
   \<and> map PathNode.current_capacity (nodes_after (has_valid_path visits_all_requests envt_ex agent_valid))
       = [1, 0]
   \<and> path_occupancies agent_valid = [0, 1, 0]
   \<and> delay_after (has_valid_path visits_all_requests envt_ex agent_valid) = Some 90"
proof -
  obtain a w where r: "has_valid_path visits_all_requests envt_ex agent_valid = Inr (Valid, a, w)"
    by (simp add: ex_defs)
  have vals: "path_arrivals envt_ex agent_valid = [40, 210]"
    "path_occupancies agent_valid = [0, 1, 0]"
    "dropoff_slack (request_order (path agent_valid)) (path_deadlines agent_valid)
       (path_arrivals envt_ex agent_valid) = 90"
    by (simp_all add: ex_defs)
  from accepted_path_holds_fresh_values[OF r] vals r show ?thesis
    by (simp add: verdict_of_def nodes_after_def delay_after_def)
qed

lemma has_valid_path_shape:
  assumes "has_valid_path is_complete envt agent = Inr (Invalid iss, agent', w)"
  shows "(iss = Incomplete_path \<and> agent' = agent)
       \<or> (\<exists>k<length (request_order (path agent)).
            (iss = Does_not_meet_deadline k \<and>
               request_order (path agent')
                 = take k (path_recomputed envt agent) @ drop k (request_order (path agent))) \<or>
            (iss = Exceeds_MAX_CAPACITY k \<and>
               request_order (path agent')
                 = take k (path_recomputed envt agent)
                   @ (request_order (path agent) ! k)\<lparr>expected_visit_time := path_arrivals envt agent ! k\<rparr>
                   # drop (Suc k) (request_order (path agent))))"
  using assms
proof (cases rule: has_valid_path_cases)
  case incomplete
  then show ?thesis by simp
next
  case (checked ns' d')
  have ro: "request_order (path agent') = ns'"
    using checked(3) by simp
  from check_nodes_shape[OF checked(2)] show ?thesis
    unfolding ro path_recomputed_def path_arrivals_def path_occupancies_def
    by (simp only: add_0 verdict.simps verdict.inject simp_thms) blast
qed

lemma length_recomputed:
  "length as = length ns \<Longrightarrow> length cs = length ns \<Longrightarrow> length (recomputed ns as cs) = length ns"
  by (simp add: recomputed_def)

lemma length_path_recomputed [simp]:
  "length (path_recomputed envt agent) = length (request_order (path agent))"
  by (simp add: path_recomputed_def length_recomputed path_arrivals_def path_occupancies_def)

lemma nth_recomputed:
  "j < length ns \<Longrightarrow> length as = length ns \<Longrightarrow> length cs = length ns \<Longrightarrow>
     recomputed ns as cs ! j
       = (ns ! j)\<lparr>expected_visit_time := as ! j, PathNode.current_capacity := cs ! j\<rparr>"
  by (simp add: recomputed_def)

text \<open>
  Claim C4, as amended. An incomplete path fails at once and the agent is returned as it
  was. Any failed call leaves everything but the nodes' two derived fields as it was: the
  position, the requests, the path's \<open>current_capacity\<close> and \<open>total_delay\<close>, and each
  node's \<open>is_dropoff\<close> and \<open>request_index\<close>. The nodes a failed call leaves are these:
  after a deadline failure at node \<open>k\<close>, the first \<open>k\<close> nodes with both derived fields
  recomputed (the arrival time at the node, the occupancy after it) followed by the nodes
  from \<open>k\<close> on as they were; after a capacity failure at node \<open>k\<close>, the first \<open>k\<close> nodes
  recomputed, node \<open>k\<close> with its \<open>expected_visit_time\<close> recomputed and its
  \<open>current_capacity\<close> as it was, and the nodes after \<open>k\<close> as they were.
\<close>

theorem failed_validation_frame:
  "(\<not> is_complete (path agent) \<longrightarrow>
      has_valid_path is_complete envt agent = Inr (Invalid Incomplete_path, agent, []))
   \<and> (has_valid_path is_complete envt agent = Inr (Invalid iss, agent', w) \<longrightarrow>
        agent' = agent\<lparr>path := (path agent)\<lparr>request_order := request_order (path agent')\<rparr>\<rparr> \<and>
        map is_dropoff (request_order (path agent')) = map is_dropoff (request_order (path agent)) \<and>
        map request_index (request_order (path agent')) = map request_index (request_order (path agent)) \<and>
        ((iss = Incomplete_path \<and> agent' = agent) \<or>
         (\<exists>k<length (request_order (path agent)).
            (iss = Does_not_meet_deadline k \<and>
               request_order (path agent')
                 = take k (path_recomputed envt agent) @ drop k (request_order (path agent))) \<or>
            (iss = Exceeds_MAX_CAPACITY k \<and>
               request_order (path agent')
                 = take k (path_recomputed envt agent)
                   @ (request_order (path agent) ! k)\<lparr>expected_visit_time := path_arrivals envt agent ! k\<rparr>
                   # drop (Suc k) (request_order (path agent))))))
   \<and> (\<forall>j<length (request_order (path agent)).
        path_recomputed envt agent ! j
          = (request_order (path agent) ! j)\<lparr>expected_visit_time := path_arrivals envt agent ! j,
               PathNode.current_capacity := path_occupancies agent ! Suc j\<rparr>)"
proof (intro conjI impI allI)
  assume "\<not> is_complete (path agent)"
  then show "has_valid_path is_complete envt agent = Inr (Invalid Incomplete_path, agent, [])"
    by (simp add: has_valid_path_def)
next
  assume r: "has_valid_path is_complete envt agent = Inr (Invalid iss, agent', w)"
  then show "agent' = agent\<lparr>path := (path agent)\<lparr>request_order := request_order (path agent')\<rparr>\<rparr>"
    by (cases rule: has_valid_path_cases) simp_all
  from r show "map is_dropoff (request_order (path agent')) = map is_dropoff (request_order (path agent))"
    by (cases rule: has_valid_path_cases) (simp_all add: check_nodes_static)
  from r show "map request_index (request_order (path agent')) = map request_index (request_order (path agent))"
    by (cases rule: has_valid_path_cases) (simp_all add: check_nodes_static)
  from r show "(iss = Incomplete_path \<and> agent' = agent) \<or>
         (\<exists>k<length (request_order (path agent)).
            (iss = Does_not_meet_deadline k \<and>
               request_order (path agent')
                 = take k (path_recomputed envt agent) @ drop k (request_order (path agent))) \<or>
            (iss = Exceeds_MAX_CAPACITY k \<and>
               request_order (path agent')
                 = take k (path_recomputed envt agent)
                   @ (request_order (path agent) ! k)\<lparr>expected_visit_time := path_arrivals envt agent ! k\<rparr>
                   # drop (Suc k) (request_order (path agent))))"
    by (rule has_valid_path_shape)
next
  fix j assume j: "j < length (request_order (path agent))"
  have "tl (path_occupancies agent) ! j = path_occupancies agent ! Suc j"
    using j by (simp add: nth_tl path_occupancies_def)
  with j show "path_recomputed envt agent ! j
          = (request_order (path agent) ! j)\<lparr>expected_visit_time := path_arrivals envt agent ! j,
               PathNode.current_capacity := path_occupancies agent ! Suc j\<rparr>"
    by (simp add: path_recomputed_def nth_recomputed path_arrivals_def path_occupancies_def)
qed

text \<open>
  Claim C4 as stated fails: in the spec's scenario the call fails at node 1, and node 0 has
  by then been overwritten (arrival time 40 for 0, occupancy 1 for 0).
\<close>

theorem failed_validation_unchanged_counterexample:
  "verdict_of (has_valid_path visits_all_requests envt_ex agent_late)
     = Some (Invalid (Does_not_meet_deadline 1))
   \<and> map expected_visit_time (request_order (path agent_late)) = [0, 0]
   \<and> map expected_visit_time (nodes_after (has_valid_path visits_all_requests envt_ex agent_late))
       = [40, 0]
   \<and> map PathNode.current_capacity (request_order (path agent_late)) = [0, 0]
   \<and> map PathNode.current_capacity (nodes_after (has_valid_path visits_all_requests envt_ex agent_late))
       = [1, 0]"
  by (simp add: ex_defs)

text \<open>The amended claim C4 at an incomplete path and at the spec's scenario.\<close>

theorem failed_validation_frame_witness:
  "\<not> visits_all_requests (path agent_incomplete)
   \<and> has_valid_path visits_all_requests envt_ex agent_incomplete
       = Inr (Invalid Incomplete_path, agent_incomplete, [])
   \<and> verdict_of (has_valid_path visits_all_requests envt_ex agent_late)
       = Some (Invalid (Does_not_meet_deadline 1))
   \<and> nodes_after (has_valid_path visits_all_requests envt_ex agent_late)
       = [(new_node False 0)\<lparr>expected_visit_time := 40, PathNode.current_capacity := 1\<rparr>,
          new_node True 0]
   \<and> (1::nat) < length (request_order (path agent_late))
   \<and> path_recomputed envt_ex agent_late ! 0
       = (new_node False 0)\<lparr>expected_visit_time := 40, PathNode.current_capacity := 1\<rparr>
   \<and> map is_dropoff (nodes_after (has_valid_path visits_all_requests envt_ex agent_late))
       = map is_dropoff (request_order (path agent_late))"
proof -
  obtain a w where r: "has_valid_path visits_all_requests envt_ex agent_late
      = Inr (Invalid (Does_not_meet_deadline 1), a, w)"
    by (simp add: ex_defs)
  have n: "\<not> visits_all_requests (path agent_incomplete)"
    by (simp add: ex_defs)
  note inst = failed_validation_frame[of visits_all_requests agent_late envt_ex "Does_not_meet_deadline 1" a w]
  with failed_validation_frame[of visits_all_requests agent_incomplete envt_ex]
  have i: "has_valid_path visits_all_requests envt_ex agent_incomplete
             = Inr (Invalid Incomplete_path, agent_incomplete, [])"
    using n by blast
  have vals: "path_arrivals envt_ex agent_late = [40, 210]"
    "path_occupancies agent_late = [0, 1, 0]"
    "request_order (path agent_late) = [new_node False 0, new_node True 0]"
    by (simp_all add: ex_defs)
  from inst have every: "\<forall>j<length (request_order (path agent_late)).
        path_recomputed envt_ex agent_late ! j
          = (request_order (path agent_late) ! j)\<lparr>expected_visit_time := path_arrivals envt_ex agent_late ! j,
               PathNode.current_capacity := path_occupancies agent_late ! Suc j\<rparr>"
    by (rule conjunct2[OF conjunct2])
  then have f0: "path_recomputed envt_ex agent_late ! 0
           = (new_node False 0)\<lparr>expected_visit_time := 40, PathNode.current_capacity := 1\<rparr>"
    by (simp add: vals)
  from inst r
  have st: "map is_dropoff (request_order (path a)) = map is_dropoff (request_order (path agent_late))"
    by blast
  from inst r
  have "\<exists>k<length (request_order (path agent_late)).
            (Does_not_meet_deadline 1 = Does_not_meet_deadline k \<and>
               request_order (path a)
                 = take k (path_recomputed envt_ex agent_late) @ drop k (request_order (path agent_late))) \<or>
            (Does_not_meet_deadline 1 = Exceeds_MAX_CAPACITY k \<and>
               request_order (path a)
                 = take k (path_recomputed envt_ex agent_late)
                   @ (request_order (path agent_late) ! k)\<lparr>expected_visit_time := path_arrivals envt_ex agent_late ! k\<rparr>
                   # drop (Suc k) (request_order (path agent_late)))"
    by blast
  then have sh: "request_order (path a)
           = take 1 (path_recomputed envt_ex agent_late) @ drop 1 (request_order (path agent_late))"
    by auto
  have l: "length (path_recomputed envt_ex agent_late) = 2"
    by (simp add: vals)
  then have tk: "take 1 (path_recomputed envt_ex agent_late) = [path_recomputed envt_ex agent_late ! 0]"
    by (cases "path_recomputed envt_ex agent_late") simp_all
  from r i n st sh f0 tk show ?thesis
    by (simp add: verdict_of_def nodes_after_def vals)
qed

section \<open>Properties of the per-vehicle stepper\<close>

lemmas move_defs = move_body_def Path_get_next_location_def visit_next_location_def
  Path_is_empty_def get_next_location_def










text \<open>
  The loop need not end: with travel times of zero and an oracle whose next hop is the
  place the vehicle is at already, no pass makes progress and the call never returns.
\<close>

lemma move_agent_may_not_return:
  "move_agent envt_stuck agent_late 60 = None"
proof -
  let ?stuck = "agent_late\<lparr>position := \<lparr>next_location = 0, time_to_next_location = 0\<rparr>\<rparr>"
  let ?P = "\<lambda>(e::NYEnvironment) (a::LearningAgent) (t::real) (y::py_error + LearningAgent \<times> real).
              e = envt_stuck \<and> a = ?stuck \<and> t \<ge> 0 \<longrightarrow> False"
  have body: "move_body envt_stuck ?stuck t = Continue ?stuck t" if "t \<ge> 0" for t
    using that by (simp add: move_defs ex_defs)
  have never: "move_agent envt_stuck ?stuck t \<noteq> Some y" if "t \<ge> 0" for t y
  proof
    assume m: "move_agent envt_stuck ?stuck t = Some y"
    have "?P envt_stuck ?stuck t y"
    proof (rule move_agent.raw_induct[where P = ?P, OF _ m], goal_cases)
      case (1 f e a t y)
      show ?case
      proof (intro impI)
        assume h: "e = envt_stuck \<and> a = ?stuck \<and> t \<ge> 0"
        with 1(2) body[of t] have "f envt_stuck ?stuck t = Some y" by simp
        from 1(1)[OF this] h show False by simp
      qed
    qed
    with that show False by simp
  qed
  have first: "move_body envt_stuck agent_late 60 = Continue ?stuck 55"
    by (simp add: move_defs ex_defs)
  have "move_agent envt_stuck agent_late 60 = move_agent envt_stuck ?stuck 55"
    by (subst move_agent.simps) (simp add: first)
  with never[of 55] show ?thesis by (cases "move_agent envt_stuck agent_late 60") auto
qed




section \<open>Properties of the request history and of the sampling\<close>

lemma deque_append_drop:
  assumes "length d \<le> n"
  shows "deque_append n d x = drop (Suc (length d) - n) (d @ [x])"
proof (cases "length d = n")
  case True
  have "drop (Suc 0) (d @ [x]) = tl (d @ [x])" by (simp only: drop_Suc drop_0)
  with True show ?thesis by (simp add: deque_append_def Let_def del: drop_append tl_append2)
next
  case False
  with assms have "Suc (length d) - n = 0" by simp
  with False assms show ?thesis by (simp add: deque_append_def Let_def del: drop_append)
qed

lemma deque_extend_snoc: "deque_extend n d (xs @ [x]) = deque_append n (deque_extend n d xs) x"
  by (simp add: deque_extend_def)

lemma deque_extend_drop:
  "length d \<le> n \<Longrightarrow> deque_extend n d xs = drop (length d + length xs - n) (d @ xs)"
proof (induction xs rule: rev_induct)
  case Nil
  then show ?case by (simp add: deque_extend_def)
next
  case (snoc x xs)
  let ?e = "deque_extend n d xs"
  let ?k = "length d + length xs - n"
  from snoc have e: "?e = drop ?k (d @ xs)" by simp
  then have len: "length ?e = length d + length xs - ?k" by simp
  then have le: "length ?e \<le> n" by simp
  have k: "?k \<le> length (d @ xs)" by simp
  have "deque_extend n d (xs @ [x]) = drop (Suc (length ?e) - n) (?e @ [x])"
    by (simp only: deque_extend_snoc deque_append_drop[OF le])
  also have "?e @ [x] = drop ?k ((d @ xs) @ [x])"
    unfolding e using k by (simp only: drop_append) simp
  also have "drop (Suc (length ?e) - n) (drop ?k ((d @ xs) @ [x]))
             = drop (Suc (length ?e) - n + ?k) ((d @ xs) @ [x])"
    by (simp only: drop_drop)
  also have "Suc (length ?e) - n + ?k = length d + length (xs @ [x]) - n"
    using len by simp
  finally show ?case by simp
qed

lemma deque_extend_length:
  "length d \<le> n \<Longrightarrow> length (deque_extend n d xs) \<le> n"
  by (simp add: deque_extend_drop)

lemma deque_extend_append:
  "deque_extend n (deque_extend n d xs) ys = deque_extend n d (xs @ ys)"
  by (simp add: deque_extend_def)

lemma update_recent_requests_foldl:
  "recent_request_history (foldl update_recent_requests envt batches)
     = deque_extend REQUEST_HISTORY_SIZE (recent_request_history envt) (concat batches)"
proof (induction batches arbitrary: envt)
  case Nil
  then show ?case by (simp add: deque_extend_def)
next
  case (Cons b bs)
  then show ?case by (simp add: update_recent_requests_def deque_extend_append)
qed

lemma sample_targets_subset:
  "sample_targets history rs = Inr targets \<Longrightarrow> set targets \<subseteq> set history \<and> length targets = length rs"
proof (induction rs arbitrary: targets)
  case Nil
  then show ?case by simp
next
  case (Cons r rs)
  then show ?case
    by (auto simp: choice_def split: if_splits sum.splits)
qed

lemma sample_targets_empty:
  "rs \<noteq> [] \<Longrightarrow> sample_targets [] rs = Inl IndexError"
  by (cases rs) (simp_all add: choice_def)

lemma sample_targets_nonempty:
  "history \<noteq> [] \<Longrightarrow>
     sample_targets history rs = Inr (map (\<lambda>r. history ! (r mod length history)) rs)"
  by (induction rs) (simp_all add: choice_def)

lemma assigned_targets_subset:
  "set (assigned_targets solution n possible_targets) \<subseteq> set possible_targets"
proof -
  have "find P [0..<m] = Some t \<Longrightarrow> t < m" for P m t
    by (auto simp: find_Some_iff)
  then show ?thesis
    by (auto simp: assigned_targets_def split: option.splits)
qed

lemma get_rebalance_targets_subset:
  "get_rebalance_targets envt rnd solve agents = Inr targets \<Longrightarrow>
     set targets \<subseteq> set (recent_request_history envt)"
  using assigned_targets_subset sample_targets_subset
  by (fastforce simp: get_rebalance_targets_def possible_targets_of_def split: sum.splits option.splits)

lemma simulate_motion_history:
  assumes "simulate_motion envt rnd solve agents current_requests = Some (Inr (envt', agents', targets))"
  shows "envt' = update_recent_requests envt current_requests"
    and "set targets \<subseteq> set (recent_request_history envt')"
  using assms get_rebalance_targets_subset
  by (auto simp: simulate_motion_def Let_def split: option.splits sum.splits if_splits prod.splits)


section \<open>Properties of the fleet step\<close>

lemmas sim_defs = simulate_motion_def get_epoch_length_def EPOCH_LENGTH_def
  update_recent_requests_def deque_extend_def deque_append_def REQUEST_HISTORY_SIZE_def
  get_rebalance_targets_def possible_targets_of_def choice_def build_model_def
  assigned_targets_def rebalance_agent_def insert_dummy_target_def delete_dummy_target_def
  draw_first_def diagonal_def diagonal_solver_def

lemma move_all_collects:
  "move_all envt i agents = Some (Inr (agents1, rb)) \<Longrightarrow> k < length agents \<Longrightarrow>
     move_agent envt (agents ! k) (get_epoch_length envt) = Some (Inr (a', r)) \<Longrightarrow> 0 < r \<Longrightarrow>
     (i + k, r) \<in> set rb"
proof (induction agents arbitrary: i k agents1 rb)
  case Nil
  then show ?case by simp
next
  case (Cons agent rest)
  show ?case
  proof (cases k)
    case 0
    with Cons.prems show ?thesis
      by (auto split: option.splits sum.splits prod.splits)
  next
    case (Suc k')
    with Cons.prems obtain rest1 rb1 where
      r: "move_all envt (Suc i) rest = Some (Inr (rest1, rb1))" and "set rb1 \<subseteq> set rb"
      by (auto split: option.splits sum.splits prod.splits)
    with Cons.IH[OF r, of k'] Cons.prems Suc show ?thesis by auto
  qed
qed

lemma move_all_total:
  "(\<forall>j<length agents. \<exists>a t. move_agent envt (agents ! j) (get_epoch_length envt) = Some (Inr (a, t)))
     \<Longrightarrow> \<exists>agents1 rb. move_all envt i agents = Some (Inr (agents1, rb))"
proof (induction agents arbitrary: i)
  case Nil
  then show ?case by simp
next
  case (Cons agent rest)
  from Cons.prems obtain a t where
    h: "move_agent envt agent (get_epoch_length envt) = Some (Inr (a, t))" by fastforce
  from Cons.prems have
    "\<forall>j<length rest. \<exists>a t. move_agent envt (rest ! j) (get_epoch_length envt) = Some (Inr (a, t))"
    by fastforce
  from Cons.IH[OF this, of "Suc i"] obtain rest1 rb1 where
    "move_all envt (Suc i) rest = Some (Inr (rest1, rb1))" by blast
  with h show ?case by simp
qed

lemma rebalance_without_history:
  assumes "recent_request_history envt = []" and "agents \<noteq> []"
  shows "get_rebalance_targets envt rnd solve agents = Inl IndexError"
proof -
  from assms(2) have "map rnd [0 ..< length agents] \<noteq> []" by simp
  from sample_targets_empty[OF this] assms(1) show ?thesis
    by (simp add: get_rebalance_targets_def possible_targets_of_def)
qed

text \<open>
  Claim C10. If some vehicle ends the epoch's motion with strictly positive spare time
  while the request history is empty and the epoch brings no request, \<open>simulate_motion\<close>
  does not complete; when every vehicle's motion returns, it raises the \<open>IndexError\<close> of
  choosing from an empty sequence.
\<close>

theorem empty_history_rebalancing_raises:
  assumes "recent_request_history envt = []" and "current_requests = []"
    and "k < length agents"
    and "move_agent envt (agents ! k) (get_epoch_length envt) = Some (Inr (agent', r))"
    and "0 < r"
  shows "simulate_motion envt rnd solve agents current_requests \<noteq> Some (Inr result)
       \<and> ((\<forall>j<length agents. \<exists>a t. move_agent envt (agents ! j) (get_epoch_length envt)
                                        = Some (Inr (a, t)))
            \<longrightarrow> simulate_motion envt rnd solve agents current_requests = Some (Inl IndexError))"
proof -
  have hist: "recent_request_history (update_recent_requests envt current_requests) = []"
    using assms(1,2) by (simp add: update_recent_requests_def deque_extend_def)
  have raises: "simulate_motion envt rnd solve agents current_requests = Some (Inl IndexError)"
    if m: "move_all envt 0 agents = Some (Inr (agents1, rb))" for agents1 rb
  proof -
    from move_all_collects[OF m assms(3,4,5)] have "rb \<noteq> []" by auto
    then have "map (\<lambda>(i, _). agents1 ! i) rb \<noteq> []" by simp
    from rebalance_without_history[OF hist this] m \<open>rb \<noteq> []\<close> show ?thesis
      by (simp add: simulate_motion_def Let_def)
  qed
  have "simulate_motion envt rnd solve agents current_requests \<noteq> Some (Inr result)"
  proof (cases "move_all envt 0 agents")
    case None
    then show ?thesis by (simp add: simulate_motion_def)
  next
    case (Some res)
    show ?thesis
    proof (cases res)
      case (Inl e)
      with Some show ?thesis by (simp add: simulate_motion_def)
    next
      case (Inr p)
      with Some raises[of "fst p" "snd p"] show ?thesis by simp
    qed
  qed
  moreover have "simulate_motion envt rnd solve agents current_requests = Some (Inl IndexError)"
    if "\<forall>j<length agents. \<exists>a t. move_agent envt (agents ! j) (get_epoch_length envt)
                                        = Some (Inr (a, t))"
    using move_all_total[OF that, of 0] raises by blast
  ultimately show ?thesis by blast
qed

text \<open>Claim C10 at one idle vehicle, an empty history and no new request.\<close>

theorem empty_history_rebalancing_raises_witness:
  "recent_request_history envt_ex = [] \<and> (0::nat) < length [agent_fresh]
   \<and> move_agent envt_ex ([agent_fresh] ! 0) (get_epoch_length envt_ex)
       = Some (Inr (agent_fresh, 55))
   \<and> (0::real) < 55
   \<and> simulate_motion envt_ex draw_first diagonal_solver [agent_fresh] []
       = Some (Inl IndexError)"
proof -
  have h: "recent_request_history envt_ex = []" by (simp add: ex_defs)
  have k: "(0::nat) < length [agent_fresh]" by simp
  have m: "move_agent envt_ex ([agent_fresh] ! 0) (get_epoch_length envt_ex)
             = Some (Inr (agent_fresh, 55))"
    by (simp add: get_epoch_length_def EPOCH_LENGTH_def move_agent.simps move_defs ex_defs)
  have r: "(0::real) < 55" by simp
  have all: "\<forall>j<length [agent_fresh]. \<exists>a t.
               move_agent envt_ex ([agent_fresh] ! j) (get_epoch_length envt_ex) = Some (Inr (a, t))"
    using m by simp
  from empty_history_rebalancing_raises[OF h refl k m r, of draw_first diagonal_solver] all
  have "simulate_motion envt_ex draw_first diagonal_solver [agent_fresh] [] = Some (Inl IndexError)"
    by blast
  with h k m r show ?thesis by blast
qed

text \<open>
  Claim C8. A history of at most \<open>REQUEST_HISTORY_SIZE\<close> requests stays so under
  \<open>update_recent_requests\<close>, and holds the last \<open>REQUEST_HISTORY_SIZE\<close> requests of the old
  history followed by the new requests, in that order; so it does after any number of
  updates. A call of \<open>simulate_motion\<close> that returns has updated the history with the
  epoch's requests, and the rebalancing targets it handed out are drawn from the updated
  history.
\<close>

theorem history_is_bounded_fifo:
  assumes "length (recent_request_history envt) \<le> REQUEST_HISTORY_SIZE"
  shows "recent_request_history (update_recent_requests envt new_requests)
           = drop (length (recent_request_history envt @ new_requests) - REQUEST_HISTORY_SIZE)
               (recent_request_history envt @ new_requests)
       \<and> length (recent_request_history (update_recent_requests envt new_requests))
           \<le> REQUEST_HISTORY_SIZE
       \<and> recent_request_history (foldl update_recent_requests envt batches)
           = drop (length (recent_request_history envt @ concat batches) - REQUEST_HISTORY_SIZE)
               (recent_request_history envt @ concat batches)
       \<and> (simulate_motion envt rnd solve agents new_requests = Some (Inr (envt', agents', targets))
            \<longrightarrow> envt' = update_recent_requests envt new_requests
                \<and> set targets \<subseteq> set (recent_request_history envt'))"
  using assms simulate_motion_history[of envt rnd solve agents new_requests envt' agents' targets]
  by (simp add: update_recent_requests_def update_recent_requests_foldl deque_extend_drop)

text \<open>
  Claim C8 at a full history, whose oldest request is evicted, and at an epoch that starts
  with an empty history: the idle vehicle is sent towards the request of that epoch.
\<close>

theorem history_is_bounded_fifo_witness:
  "length (recent_request_history (envt_ex\<lparr>recent_request_history := replicate 500 req_tight\<rparr>))
     \<le> REQUEST_HISTORY_SIZE
   \<and> recent_request_history
       (update_recent_requests (envt_ex\<lparr>recent_request_history := replicate 500 req_tight\<rparr>)
          [req_loose])
       = replicate 499 req_tight @ [req_loose]
   \<and> length (recent_request_history envt_ex) \<le> REQUEST_HISTORY_SIZE
   \<and> simulate_motion envt_ex draw_first diagonal_solver [agent_fresh] [req_loose]
       = Some (Inr (envt_ex\<lparr>recent_request_history := [req_loose]\<rparr>,
                    [agent_fresh\<lparr>position := \<lparr>next_location = 1, time_to_next_location = 35\<rparr>\<rparr>],
                    [req_loose]))
   \<and> recent_request_history (update_recent_requests envt_ex [req_loose]) = [req_loose]"
proof -
  let ?full = "envt_ex\<lparr>recent_request_history := replicate 500 req_tight\<rparr>"
  have f: "length (recent_request_history ?full) \<le> REQUEST_HISTORY_SIZE"
    by (simp add: REQUEST_HISTORY_SIZE_def)
  have e: "length (recent_request_history envt_ex) \<le> REQUEST_HISTORY_SIZE"
    by (simp add: ex_defs)
  have sim: "simulate_motion envt_ex draw_first diagonal_solver [agent_fresh] [req_loose]
     = Some (Inr (envt_ex\<lparr>recent_request_history := [req_loose]\<rparr>,
                  [agent_fresh\<lparr>position := \<lparr>next_location = 1, time_to_next_location = 35\<rparr>\<rparr>],
                  [req_loose]))"
    by (simp add: sim_defs move_agent.simps move_defs ex_defs)
  from history_is_bounded_fifo[OF f, where new_requests = "[req_loose]"]
  have "recent_request_history (update_recent_requests ?full [req_loose])
          = replicate 499 req_tight @ [req_loose]"
    by (simp add: REQUEST_HISTORY_SIZE_def)
  moreover from history_is_bounded_fifo[OF e, where rnd = draw_first and solve = diagonal_solver
      and agents = "[agent_fresh]" and new_requests = "[req_loose]"] sim
  have "recent_request_history (update_recent_requests envt_ex [req_loose]) = [req_loose]"
    by (simp add: envt_ex_def)
  ultimately show ?thesis using f e sim by blast
qed


section \<open>Properties of the rebalancing phase\<close>














section \<open>Properties of the rebalancing solver\<close>

lemma sum_01_card:
  fixes f :: "nat \<Rightarrow> int"
  assumes "finite S" and "\<forall>t\<in>S. f t = 0 \<or> f t = 1"
  shows "sum f S = int (card {t \<in> S. f t = 1})"
proof -
  have "sum f S = (\<Sum>t\<in>S. if f t = 1 then 1 else 0)"
    using assms(2) by (intro sum.cong) auto
  also have "\<dots> = int (card (S \<inter> {t. f t = 1}))"
    using assms(1) by (simp add: sum.If_cases)
  also have "S \<inter> {t. f t = 1} = {t \<in> S. f t = 1}" by auto
  finally show ?thesis .
qed

lemma sum_01_unique:
  fixes f :: "nat \<Rightarrow> int"
  assumes "finite S" and "\<forall>t\<in>S. f t = 0 \<or> f t = 1" and "sum f S = 1"
  shows "\<exists>!t. t \<in> S \<and> f t = 1"
proof -
  from sum_01_card[OF assms(1,2)] assms(3) have "card {t \<in> S. f t = 1} = 1" by simp
  then obtain t where t: "{t \<in> S. f t = 1} = {t}" by (rule card_1_singletonE)
  then have "t \<in> S \<and> f t = 1" by blast
  moreover have "u = t" if "u \<in> S \<and> f u = 1" for u using t that by blast
  ultimately show ?thesis by blast
qed

lemma feasible_row:
  assumes "feasible m x" and "a < num_agents m"
  shows "\<exists>!t. t < num_targets m \<and> x a t = 1"
proof -
  from assms have "\<forall>t\<in>{..<num_targets m}. x a t = 0 \<or> x a t = 1"
    and "sum (x a) {..<num_targets m} = 1"
    by (auto simp: feasible_def)
  from sum_01_unique[OF _ this] show ?thesis by simp
qed

lemma feasible_column:
  assumes "feasible m x" and "t < num_targets m"
  shows "\<exists>!a. a < num_agents m \<and> x a t = 1"
proof -
  from assms have "\<forall>a\<in>{..<num_agents m}. x a t = 0 \<or> x a t = 1"
    and "sum (\<lambda>a. x a t) {..<num_agents m} = 1"
    by (auto simp: feasible_def)
  from sum_01_unique[OF _ this] show ?thesis by simp
qed

lemma find_target_of:
  assumes "feasible m x" and "a < num_agents m"
  shows "find (\<lambda>t. x a t = 1) [0 ..< num_targets m] = Some (target_of x (num_targets m) a)"
    and "target_of x (num_targets m) a < num_targets m"
    and "x a (target_of x (num_targets m) a) = 1"
proof -
  from feasible_row[OF assms] obtain t where t: "t < num_targets m" "x a t = 1" by blast
  then have "find (\<lambda>t. x a t = 1) [0 ..< num_targets m] \<noteq> None"
    by (auto simp: find_None_iff)
  then obtain u where u: "find (\<lambda>t. x a t = 1) [0 ..< num_targets m] = Some u" by blast
  then show "find (\<lambda>t. x a t = 1) [0 ..< num_targets m] = Some (target_of x (num_targets m) a)"
    by (simp add: target_of_def)
  from u have "u < num_targets m \<and> x a u = 1" by (auto simp: find_Some_iff)
  with u show "target_of x (num_targets m) a < num_targets m"
    and "x a (target_of x (num_targets m) a) = 1"
    by (simp_all add: target_of_def)
qed

lemma feasible_is_pick:
  assumes "feasible m x" and "a < num_agents m" and "t < num_targets m"
  shows "x a t = pick (target_of x (num_targets m)) a t"
proof (cases "t = target_of x (num_targets m) a")
  case True
  with find_target_of(3)[OF assms(1,2)] show ?thesis by (simp add: pick_def)
next
  case False
  from feasible_row[OF assms(1,2)] find_target_of(2,3)[OF assms(1,2)] assms(3) False
  have "x a t \<noteq> 1" by blast
  moreover from assms have "x a t = 0 \<or> x a t = 1" by (simp add: feasible_def)
  ultimately show ?thesis using False by (simp add: pick_def)
qed

lemma objective_pick:
  assumes "\<forall>a<num_agents m. \<rho> a < num_targets m"
  shows "objective m (pick \<rho>) = (\<Sum>a<num_agents m. cost m a (\<rho> a))"
proof -
  have "objective m (pick \<rho>)
          = (\<Sum>a<num_agents m. \<Sum>t<num_targets m. real_of_int (pick \<rho> a t) * cost m a t)"
    unfolding objective_def by (rule sum.swap)
  also have "\<dots> = (\<Sum>a<num_agents m. cost m a (\<rho> a))"
  proof (rule sum.cong)
    fix a assume "a \<in> {..<num_agents m}"
    with assms have r: "\<rho> a \<in> {..<num_targets m}" by simp
    have "(\<Sum>t<num_targets m. real_of_int (pick \<rho> a t) * cost m a t)
            = (\<Sum>t<num_targets m. if t = \<rho> a then cost m a t else 0)"
      by (intro sum.cong) (simp_all add: pick_def)
    also have "\<dots> = cost m a (\<rho> a)" using r by (simp add: sum.delta)
    finally show "(\<Sum>t<num_targets m. real_of_int (pick \<rho> a t) * cost m a t) = cost m a (\<rho> a)" .
  qed simp
  finally show ?thesis .
qed

lemma objective_feasible:
  assumes "feasible m x"
  shows "objective m x = (\<Sum>a<num_agents m. cost m a (target_of x (num_targets m) a))"
proof -
  have "objective m x = objective m (pick (target_of x (num_targets m)))"
    unfolding objective_def
    by (intro sum.cong refl) (simp add: feasible_is_pick[OF assms])
  also have "\<dots> = (\<Sum>a<num_agents m. cost m a (target_of x (num_targets m) a))"
    using find_target_of(2)[OF assms] by (intro objective_pick) simp
  finally show ?thesis .
qed

lemma target_of_bij:
  assumes "feasible m x" and "num_agents m = n" and "num_targets m = n"
  shows "bij_betw (target_of x n) {..<n} {..<n}"
proof -
  have into: "target_of x n ` {..<n} \<subseteq> {..<n}"
    using find_target_of(2)[OF assms(1)] assms(2,3) by auto
  have inj: "inj_on (target_of x n) {..<n}"
  proof (rule inj_onI)
    fix a b assume a: "a \<in> {..<n}" and b: "b \<in> {..<n}" and eq: "target_of x n a = target_of x n b"
    from a b assms(2) have a': "a < num_agents m" and b': "b < num_agents m" by simp_all
    from find_target_of(2,3)[OF assms(1) a'] find_target_of(3)[OF assms(1) b'] eq assms(3)
    have "target_of x n a < num_targets m" "x a (target_of x n a) = 1" "x b (target_of x n a) = 1"
      by simp_all
    with feasible_column[OF assms(1), of "target_of x n a"] a' b' show "a = b" by blast
  qed
  from inj into have "target_of x n ` {..<n} = {..<n}"
    by (simp add: endo_inj_surj)
  with inj show ?thesis by (simp add: bij_betw_def)
qed

lemma pick_feasible:
  assumes "bij_betw \<sigma> {..<n} {..<n}" and "num_agents m = n" and "num_targets m = n"
  shows "feasible m (pick \<sigma>)"
proof -
  have rows: "(\<Sum>t<n. pick \<sigma> a t) = 1" if "a < n" for a
  proof -
    from assms(1) that have "\<sigma> a \<in> {..<n}" by (auto simp: bij_betw_def)
    then show ?thesis by (simp add: pick_def sum.delta)
  qed
  have cols: "(\<Sum>a<n. pick \<sigma> a t) = 1" if "t < n" for t
  proof -
    from assms(1) that obtain a0 where a0: "a0 < n" "\<sigma> a0 = t"
      by (auto simp: bij_betw_def image_iff) (metis imageE lessThan_iff)
    have "(\<Sum>a<n. pick \<sigma> a t) = (\<Sum>a<n. if a = a0 then 1 else 0)"
    proof (rule sum.cong)
      fix a assume "a \<in> {..<n}"
      with assms(1) a0 have "\<sigma> a = t \<longleftrightarrow> a = a0"
        by (auto simp: bij_betw_def inj_on_def)
      then show "pick \<sigma> a t = (if a = a0 then 1 else 0)" by (auto simp: pick_def)
    qed simp
    also have "\<dots> = 1" using a0 by (simp add: sum.delta)
    finally show ?thesis .
  qed
  from rows cols assms(2,3) show ?thesis by (simp add: feasible_def pick_def)
qed


lemma assigned_targets_feasible:
  assumes "feasible m x" and "num_agents m = n" and "num_targets m = length possible"
  shows "assigned_targets x n possible = map (\<lambda>a. possible ! target_of x (length possible) a) [0 ..< n]"
proof -
  have "(case find (\<lambda>t. x a t = 1) [0 ..< length possible] of
           None \<Rightarrow> [] | Some t \<Rightarrow> [possible ! t])
        = [possible ! target_of x (length possible) a]" if "a < n" for a
    using find_target_of(1)[OF assms(1), of a] that assms(2,3) by simp
  then have eq: "map (\<lambda>a. case find (\<lambda>t. x a t = 1) [0 ..< length possible] of
                        None \<Rightarrow> [] | Some t \<Rightarrow> [possible ! t]) [0 ..< n]
             = map (\<lambda>a. [possible ! target_of x (length possible) a]) [0 ..< n]"
    by (intro map_cong) auto
  show ?thesis
    unfolding assigned_targets_def eq by (simp add: concat_map_singleton)
qed

text \<open>
  Claim C5. For a non-empty list of \<open>N\<close> idle agents and a non-empty request history, and
  a solver that solves the program it is handed: \<open>N\<close> targets are sampled from the
  history, and the list returned gives agent \<open>a\<close> the sampled target of index \<open>\<pi> a\<close>
  for a bijection \<open>\<pi>\<close> on the indices below \<open>N\<close>, so every agent gets one target and
  every sampled target one agent; the total travel time from the agents' positions to the
  pickups of their targets is no greater than under any other bijection.
\<close>

theorem rebalance_targets_form_optimal_assignment:
  assumes "agents \<noteq> []" and "recent_request_history envt \<noteq> []"
    and "\<forall>possible. possible_targets_of envt rnd (length agents) = Inr possible \<longrightarrow>
           solves (build_model envt agents possible) (solve (build_model envt agents possible))"
  shows "\<exists>possible \<pi>.
           possible_targets_of envt rnd (length agents) = Inr possible \<and>
           length possible = length agents \<and>
           set possible \<subseteq> set (recent_request_history envt) \<and>
           get_rebalance_targets envt rnd solve agents
             = Inr (map (\<lambda>a. possible ! \<pi> a) [0 ..< length agents]) \<and>
           bij_betw \<pi> {..<length agents} {..<length agents} \<and>
           (\<forall>\<sigma>. bij_betw \<sigma> {..<length agents} {..<length agents} \<longrightarrow>
              (\<Sum>a<length agents. get_travel_time envt (next_location (position (agents ! a)))
                                     (pickup (possible ! \<pi> a)))
              \<le> (\<Sum>a<length agents. get_travel_time envt (next_location (position (agents ! a)))
                                       (pickup (possible ! \<sigma> a))))"
proof -
  let ?n = "length agents"
  let ?h = "recent_request_history envt"
  define possible where "possible = map (\<lambda>r. ?h ! (r mod length ?h)) (map rnd [0 ..< ?n])"
  have sampled: "possible_targets_of envt rnd ?n = Inr possible"
    unfolding possible_targets_of_def possible_def by (rule sample_targets_nonempty[OF assms(2)])
  have len: "length possible = ?n" by (simp add: possible_def)
  from sample_targets_subset[OF sampled[unfolded possible_targets_of_def]]
  have sub: "set possible \<subseteq> set ?h" by simp
  let ?m = "build_model envt agents possible"
  have na: "num_agents ?m = ?n" and nt: "num_targets ?m = ?n"
    by (simp_all add: build_model_def len)
  have id: "bij_betw (\<lambda>a. a) {..<?n} {..<?n}" by (simp add: bij_betw_def)
  from pick_feasible[OF id na nt] have ex: "\<exists>x. feasible ?m x" by blast
  from assms(3) sampled have "solves ?m (solve ?m)" by blast
  with ex obtain x where x: "solve ?m = Some x" and feas: "feasible ?m x"
    and opt: "\<forall>y. feasible ?m y \<longrightarrow> objective ?m x \<le> objective ?m y"
    by (auto simp: solves_def split: option.splits)
  let ?\<pi> = "target_of x ?n"
  have res: "get_rebalance_targets envt rnd solve agents = Inr (map (\<lambda>a. possible ! ?\<pi> a) [0 ..< ?n])"
    using sampled x assigned_targets_feasible[OF feas na, of possible] nt len
    by (simp add: get_rebalance_targets_def)
  have bij: "bij_betw ?\<pi> {..<?n} {..<?n}" by (rule target_of_bij[OF feas na nt])
  have cost: "cost ?m a t = get_travel_time envt (next_location (position (agents ! a)))
                              (pickup (possible ! t))" for a t
    by (simp add: build_model_def)
  have best: "(\<Sum>a<?n. cost ?m a (?\<pi> a)) \<le> (\<Sum>a<?n. cost ?m a (\<sigma> a))"
    if s: "bij_betw \<sigma> {..<?n} {..<?n}" for \<sigma>
  proof -
    from s have into: "\<forall>a<num_agents ?m. \<sigma> a < num_targets ?m"
      unfolding na nt by (auto simp: bij_betw_def)
    from opt pick_feasible[OF s na nt] have "objective ?m x \<le> objective ?m (pick \<sigma>)" by blast
    with objective_feasible[OF feas] objective_pick[OF into] show ?thesis
      by (simp add: na nt)
  qed
  from sampled len sub res bij best show ?thesis
    unfolding cost by blast
qed


text \<open>
  The two vehicles and the two requests: the diagonal assignment costs 10 + 10, the other
  one 35 + 170.
\<close>

lemma two_by_two_defs:
  "possible_targets_of envt_two draw_in_turn 2 = Inr [req_far, req_loose]"
  by (simp add: possible_targets_of_def numeral_2_eq_2 choice_def ex_defs)

lemma diagonal_solves_two:
  "solves (build_model envt_two [agent_fresh, agent_at_1] [req_far, req_loose])
     (diagonal_solver (build_model envt_two [agent_fresh, agent_at_1] [req_far, req_loose]))"
proof -
  let ?m = "build_model envt_two [agent_fresh, agent_at_1] [req_far, req_loose]"
  have obj: "objective ?m y = real_of_int (y 0 0) * 10 + real_of_int (y 1 0) * 170
                              + (real_of_int (y 0 1) * 35 + real_of_int (y 1 1) * 10)" for y
    by (simp add: objective_def build_model_def numeral_2_eq_2 ex_defs)
  have feas: "feasible ?m y \<longleftrightarrow>
        ((y 0 0 = 0 \<or> y 0 0 = 1) \<and> (y 0 1 = 0 \<or> y 0 1 = 1) \<and> (y 1 0 = 0 \<or> y 1 0 = 1) \<and>
         (y 1 1 = 0 \<or> y 1 1 = 1) \<and> y 0 0 + y 0 1 = 1 \<and> y 1 0 + y 1 1 = 1 \<and>
         y 0 0 + y 1 0 = 1 \<and> y 0 1 + y 1 1 = 1)" for y
    by (auto simp: feasible_def build_model_def numeral_2_eq_2 less_Suc_eq)
  have "feasible ?m diagonal" by (simp add: feas diagonal_def)
  moreover have "objective ?m diagonal \<le> objective ?m y" if "feasible ?m y" for y
  proof -
    from that[unfolded feas] have "y 0 0 = 0 \<or> y 0 0 = 1" "y 0 1 = 1 - y 0 0"
      "y 1 0 = 1 - y 0 0" "y 1 1 = y 0 0" by auto
    then show ?thesis unfolding obj by (auto simp: diagonal_def)
  qed
  ultimately show ?thesis by (simp add: solves_def diagonal_solver_def)
qed

text \<open>Claim C5 at the two vehicles and two requests.\<close>

theorem rebalance_targets_form_optimal_assignment_witness:
  "[agent_fresh, agent_at_1] \<noteq> [] \<and> recent_request_history envt_two \<noteq> []
   \<and> solves (build_model envt_two [agent_fresh, agent_at_1] [req_far, req_loose])
       (diagonal_solver (build_model envt_two [agent_fresh, agent_at_1] [req_far, req_loose]))
   \<and> possible_targets_of envt_two draw_in_turn 2 = Inr [req_far, req_loose]
   \<and> get_rebalance_targets envt_two draw_in_turn diagonal_solver [agent_fresh, agent_at_1]
       = Inr [req_far, req_loose]
   \<and> (\<exists>\<pi>. bij_betw \<pi> {..<2} {..<2} \<and>
          get_rebalance_targets envt_two draw_in_turn diagonal_solver [agent_fresh, agent_at_1]
            = Inr (map (\<lambda>a. [req_far, req_loose] ! \<pi> a) [0 ..< 2]))"
proof -
  let ?agents = "[agent_fresh, agent_at_1]"
  have a: "?agents \<noteq> []" by simp
  have h: "recent_request_history envt_two \<noteq> []" by (simp add: ex_defs)
  have s: "\<forall>possible. possible_targets_of envt_two draw_in_turn (length ?agents) = Inr possible \<longrightarrow>
             solves (build_model envt_two ?agents possible)
               (diagonal_solver (build_model envt_two ?agents possible))"
    using two_by_two_defs diagonal_solves_two by (simp add: numeral_2_eq_2)
  from rebalance_targets_form_optimal_assignment[OF a h s] obtain possible \<pi> where
    p: "possible_targets_of envt_two draw_in_turn (length ?agents) = Inr possible"
    and r: "get_rebalance_targets envt_two draw_in_turn diagonal_solver ?agents
              = Inr (map (\<lambda>a. possible ! \<pi> a) [0 ..< length ?agents])"
    and b: "bij_betw \<pi> {..<length ?agents} {..<length ?agents}"
    by blast
  from p two_by_two_defs have possible: "possible = [req_far, req_loose]"
    by (simp add: numeral_2_eq_2)
  have len: "length ?agents = 2" by simp
  have direct: "get_rebalance_targets envt_two draw_in_turn diagonal_solver ?agents
                  = Inr [req_far, req_loose]"
    using two_by_two_defs
    by (simp add: get_rebalance_targets_def numeral_2_eq_2 assigned_targets_def
        diagonal_solver_def diagonal_def)
  from r b have "\<exists>\<pi>. bij_betw \<pi> {..<2} {..<2} \<and>
          get_rebalance_targets envt_two draw_in_turn diagonal_solver ?agents
            = Inr (map (\<lambda>a. [req_far, req_loose] ! \<pi> a) [0 ..< 2])"
    unfolding possible len by blast
  with a h diagonal_solves_two two_by_two_defs direct show ?thesis by blast
qed


section \<open>Properties of the request generator\<close>

lemma read_line_header:
  assumes "match_new_epoch (strip raw) = Some epoch"
  obtains st' where "read_line tol envt sh eh st raw = Inr st'" "\<not> is_first_epoch st'"
    "current_hour st' = None \<longleftrightarrow> is_first_epoch st \<and> current_hour st = None"
proof (cases "is_first_epoch st")
  case True
  with assms have "read_line tol envt sh eh st raw = Inr (st\<lparr>is_first_epoch := False\<rparr>)"
    by (simp add: read_line_def Let_def)
  with True show ?thesis by (intro that[of "st\<lparr>is_first_epoch := False\<rparr>"]) simp_all
next
  case False
  let ?h = "hour_of (clock st)"
  let ?st1 = "st\<lparr>current_hour := Some ?h\<rparr>"
  let ?st2 = "if in_hours sh eh ?h then ?st1\<lparr>yielded := yielded ?st1 @ [request_list ?st1]\<rparr> else ?st1"
  let ?st3 = "?st2\<lparr>clock := real epoch * EPOCH_LENGTH, request_list := []\<rparr>"
  from False assms have "read_line tol envt sh eh st raw = Inr ?st3"
    by (simp add: read_line_def Let_def)
  moreover have "\<not> is_first_epoch ?st3" using False by simp
  moreover have "current_hour ?st3 \<noteq> None" by simp
  ultimately show ?thesis using False by (intro that[of ?st3]) simp_all
qed

lemma read_line_malformed:
  assumes "match_new_epoch (strip raw) = None" and "match_request (strip raw) = None"
  shows "read_line tol envt sh eh st raw = Inl AssertionError"
  using assms by (simp add: read_line_def Let_def)

lemma read_line_request:
  assumes "match_new_epoch (strip raw) = None" and "match_request (strip raw) = Some (g1, g2, g3)"
  obtains st' where "read_line tol envt sh eh st raw = Inr st'"
    "is_first_epoch st' = is_first_epoch st" "current_hour st' = current_hour st"
proof -
  let ?st' = "st\<lparr>request_list :=
                          request_list st @
                          (if g1 \<notin> set (ignored_zones envt) \<and>
                              g2 \<notin> set (ignored_zones envt) \<and> g1 \<noteq> g2
                           then replicate g3
                                  (new_request tol g1 g2 (clock st) (get_travel_time envt g1 g2))
                           else [])\<rparr>"
  from assms have "read_line tol envt sh eh st raw = Inr ?st'"
    by (simp add: read_line_def Let_def)
  then show ?thesis by (intro that[of ?st']) simp_all
qed

lemma read_line_cases:
  obtains (malformed) "\<not> well_formed_line raw" "read_line tol envt sh eh st raw = Inl AssertionError"
  | (header) st' where "well_formed_line raw" "match_new_epoch (strip raw) \<noteq> None"
      "read_line tol envt sh eh st raw = Inr st'" "\<not> is_first_epoch st'"
      "current_hour st' = None \<longleftrightarrow> is_first_epoch st \<and> current_hour st = None"
  | (request) st' where "well_formed_line raw" "match_new_epoch (strip raw) = None"
      "read_line tol envt sh eh st raw = Inr st'"
      "is_first_epoch st' = is_first_epoch st" "current_hour st' = current_hour st"
proof (cases "match_new_epoch (strip raw)")
  case (Some epoch)
  obtain st' where
    "read_line tol envt sh eh st raw = Inr st'" "\<not> is_first_epoch st'"
    "current_hour st' = None \<longleftrightarrow> is_first_epoch st \<and> current_hour st = None"
    by (rule read_line_header[OF Some, of tol envt sh eh st])
  with Some show ?thesis by (intro header[of st']) (simp_all add: well_formed_line_def)
next
  case None
  show ?thesis
  proof (cases "match_request (strip raw)")
    case n: None
    from read_line_malformed[OF None n] None n show ?thesis
      by (intro malformed) (simp_all add: well_formed_line_def)
  next
    case (Some g)
    obtain g1 g2 g3 where g: "g = (g1, g2, g3)" by (cases g)
    obtain st' where
      "read_line tol envt sh eh st raw = Inr st'"
      "is_first_epoch st' = is_first_epoch st" "current_hour st' = current_hour st"
      by (rule read_line_request[OF None Some[unfolded g], of tol envt sh eh st])
    with None Some show ?thesis by (intro request[of st']) (simp_all add: well_formed_line_def)
  qed
qed

lemma read_lines_error:
  "read_lines tol envt sh eh st body = (st', Some e) \<Longrightarrow> e = AssertionError"
proof (induction body arbitrary: st)
  case Nil
  then show ?case by simp
next
  case (Cons raw rest)
  show ?case
  proof (cases rule: read_line_cases[where raw = raw and tol = tol and envt = envt and sh = sh and eh = eh and st = st])
    case malformed
    with Cons.prems show ?thesis by simp
  next
    case (header st1)
    with Cons.prems have "read_lines tol envt sh eh st1 rest = (st', Some e)" by simp
    then show ?thesis by (rule Cons.IH)
  next
    case (request st1)
    with Cons.prems have "read_lines tol envt sh eh st1 rest = (st', Some e)" by simp
    then show ?thesis by (rule Cons.IH)
  qed
qed

lemma read_lines_ok:
  "(\<exists>st'. read_lines tol envt sh eh st body = (st', None)) \<longleftrightarrow> list_all well_formed_line body"
proof (induction body arbitrary: st)
  case Nil
  then show ?case by simp
next
  case (Cons raw rest)
  show ?case
  proof (cases rule: read_line_cases[where raw = raw and tol = tol and envt = envt and sh = sh and eh = eh and st = st])
    case malformed
    then show ?thesis by simp
  next
    case (header st1)
    with Cons.IH[of st1] show ?thesis by simp
  next
    case (request st1)
    with Cons.IH[of st1] show ?thesis by simp
  qed
qed

lemma epoch_headers_Cons:
  "epoch_headers (raw # rest)
     = (if match_new_epoch (strip raw) \<noteq> None then Suc (epoch_headers rest) else epoch_headers rest)"
  by (simp add: epoch_headers_def)

lemma read_lines_current_hour:
  "read_lines tol envt sh eh st body = (st', None) \<Longrightarrow>
     (current_hour st' = None \<longleftrightarrow>
        current_hour st = None \<and>
        (if is_first_epoch st then epoch_headers body \<le> 1 else epoch_headers body = 0))"
proof (induction body arbitrary: st)
  case Nil
  then show ?case by (simp add: epoch_headers_def)
next
  case (Cons raw rest)
  show ?case
  proof (cases rule: read_line_cases[where raw = raw and tol = tol and envt = envt and sh = sh and eh = eh and st = st])
    case malformed
    with Cons.prems show ?thesis by simp
  next
    case (header st1)
    with Cons.prems have "read_lines tol envt sh eh st1 rest = (st', None)" by simp
    from Cons.IH[OF this] header(2,4,5) show ?thesis
      by (simp add: epoch_headers_Cons)
  next
    case (request st1)
    with Cons.prems have "read_lines tol envt sh eh st1 rest = (st', None)" by simp
    from Cons.IH[OF this] request(2,4,5) show ?thesis
      by (simp add: epoch_headers_Cons)
  qed
qed

text \<open>
  Claim C9. The generator ends with the undefined-variable error exactly when the first
  line is a number, every line of the body is an epoch header or a request line, and the
  body has at most one epoch header: \<open>current_hour\<close> is first assigned at the second
  header, so a body without header (or with one) reaches the final test with the variable
  unassigned. With at least two epoch headers the final test reads an assigned variable.
\<close>

theorem current_hour_undefined_without_two_epochs:
  "(snd (snd (get_request_batch tol envt start_hour end_hour file_lines)) = Some UnboundLocalError
      \<longleftrightarrow> (\<exists>n. int_of_line (case file_lines of [] \<Rightarrow> [] | first # _ \<Rightarrow> first) = Inr n) \<and>
          list_all well_formed_line (tl file_lines) \<and> epoch_headers (tl file_lines) \<le> 1)
   \<and> (2 \<le> epoch_headers (tl file_lines) \<longrightarrow>
        snd (snd (get_request_batch tol envt start_hour end_hour file_lines))
          \<noteq> Some UnboundLocalError)"
proof -
  let ?first = "case file_lines of [] \<Rightarrow> [] | first # _ \<Rightarrow> first"
  let ?st0 = "\<lparr>request_list = [], is_first_epoch = True, current_hour = None,
               clock = current_time envt, yielded = []\<rparr>"
  let ?out = "snd (snd (get_request_batch tol envt start_hour end_hour file_lines))"
  have iff: "?out = Some UnboundLocalError
      \<longleftrightarrow> (\<exists>n. int_of_line ?first = Inr n) \<and>
          list_all well_formed_line (tl file_lines) \<and> epoch_headers (tl file_lines) \<le> 1"
  proof (cases "int_of_line ?first")
    case (Inl e)
    then have "e = ValueError" by (simp add: int_of_line_def Let_def split: if_splits)
    with Inl show ?thesis by (simp add: get_request_batch_def)
  next
    case (Inr n)
    obtain st' r where rl: "read_lines tol envt start_hour end_hour ?st0 (tl file_lines) = (st', r)"
      by (cases "read_lines tol envt start_hour end_hour ?st0 (tl file_lines)")
    show ?thesis
    proof (cases r)
      case None
      with rl read_lines_ok[of tol envt start_hour end_hour ?st0 "tl file_lines"]
      have wf: "list_all well_formed_line (tl file_lines)" by blast
      from read_lines_current_hour[OF rl[unfolded None]]
      have ch: "current_hour st' = None \<longleftrightarrow> epoch_headers (tl file_lines) \<le> 1" by simp
      show ?thesis
      proof (cases "current_hour st'")
        case n: None
        with Inr rl None wf ch show ?thesis by (simp add: get_request_batch_def)
      next
        case (Some h)
        with Inr rl None wf ch show ?thesis by (simp add: get_request_batch_def)
      qed
    next
      case (Some e)
      with rl have "e = AssertionError" using read_lines_error by blast
      moreover from rl Some read_lines_ok[of tol envt start_hour end_hour ?st0 "tl file_lines"]
      have "\<not> list_all well_formed_line (tl file_lines)" by auto
      ultimately show ?thesis using Inr rl Some by (simp add: get_request_batch_def)
    qed
  qed
  then show ?thesis by auto
qed

text \<open>The definitions unfolded to run the file examples.\<close>

lemmas file_defs = get_request_batch_def int_of_line_def strip_def is_space_def is_digit_def
  match_new_epoch_def match_request_def match_digits_def nat_of_digits_def digit_value_def
  read_line_def hour_of_def in_hours_def new_request_def tol_ex_def epoch_headers_def
  well_formed_line_def

text \<open>
  Claim C9 at a file whose body is one request line (the generator raises) and at a file
  with two epochs (it yields both batches and is exhausted).
\<close>

theorem current_hour_undefined_without_two_epochs_witness:
  "int_of_line ''2'' = Inr 2
   \<and> list_all well_formed_line [''1,2,1.0''] \<and> epoch_headers [''1,2,1.0''] = 0
   \<and> snd (snd (get_request_batch tol_ex envt_ex 0 24 [''2'', ''1,2,1.0''])) = Some UnboundLocalError
   \<and> epoch_headers [''Flows:0-0'', ''1,2,2.0'', ''Flows:1-1'', ''2,1,1.0''] = 2
   \<and> snd (snd (get_request_batch tol_ex envt_ex 0 24
                 [''2'', ''Flows:0-0'', ''1,2,2.0'', ''Flows:1-1'', ''2,1,1.0''])) = None"
proof -
  have a: "int_of_line ''2'' = Inr 2" by (simp add: file_defs)
  have b: "list_all well_formed_line [''1,2,1.0'']" by (simp add: file_defs)
  have c: "epoch_headers [''1,2,1.0''] = 0" by (simp add: file_defs)
  have d: "epoch_headers [''Flows:0-0'', ''1,2,2.0'', ''Flows:1-1'', ''2,1,1.0''] = 2"
    by (simp add: file_defs)
  have e: "snd (snd (get_request_batch tol_ex envt_ex 0 24
                 [''2'', ''Flows:0-0'', ''1,2,2.0'', ''Flows:1-1'', ''2,1,1.0''])) = None"
    by (simp add: file_defs ex_defs EPOCH_LENGTH_def)
  from current_hour_undefined_without_two_epochs[of tol_ex envt_ex 0 24 "[''2'', ''1,2,1.0'']"] a b c
  have "snd (snd (get_request_batch tol_ex envt_ex 0 24 [''2'', ''1,2,1.0''])) = Some UnboundLocalError"
    by simp
  moreover
  from current_hour_undefined_without_two_epochs[of tol_ex envt_ex 0 24
       "[''2'', ''Flows:0-0'', ''1,2,2.0'', ''Flows:1-1'', ''2,1,1.0'']"] d
  have "snd (snd (get_request_batch tol_ex envt_ex 0 24
                 [''2'', ''Flows:0-0'', ''1,2,2.0'', ''Flows:1-1'', ''2,1,1.0''])) \<noteq> Some UnboundLocalError"
    by simp
  ultimately show ?thesis using a b c d e by blast
qed


end
